theory Spec2Isabelle
  imports Complex_Main "HOL-Library.Multiset" "HOL-Library.AList"
begin

section \<open>JavaScript values\<close>

text \<open>
  The two source files work on JSON-decoded data.  A JavaScript number is a finite value,
  one of the two infinities, or NaN.  Finite values are kept exact (rationals): rounding of
  doubles is not part of the model, and there is a single zero.
\<close>

datatype jsnum = Fin rat | PInf | NInf | NaN

datatype jsval =
    JUndef
  | JNull
  | JBool bool
  | JNum jsnum
  | JStr string
  | JArr "jsval list"
  | JObj "(string \<times> jsval) list"

text \<open>An object is its list of own properties in insertion order; keys of a decoded
  JSON object are pairwise distinct.\<close>

type_synonym jsobj = "(string \<times> jsval) list"

subsection \<open>Numbers: comparison, \<open>Math.min\<close>, \<open>Math.max\<close>, subtraction\<close>

text \<open>\<open>a < b\<close> on numbers; a comparison with NaN is never true.\<close>

fun num_lt :: "jsnum \<Rightarrow> jsnum \<Rightarrow> bool" where
  "num_lt NaN b = False"
| "num_lt a NaN = False"
| "num_lt (Fin x) (Fin y) = (x < y)"
| "num_lt (Fin x) PInf = True"
| "num_lt (Fin x) NInf = False"
| "num_lt PInf b = False"
| "num_lt NInf NInf = False"
| "num_lt NInf b = True"

text \<open>\<open>a >= b\<close> is "neither operand is NaN and not \<open>a < b\<close>".\<close>

definition num_ge :: "jsnum \<Rightarrow> jsnum \<Rightarrow> bool" where
  "num_ge a b = (a \<noteq> NaN \<and> b \<noteq> NaN \<and> \<not> num_lt a b)"

definition js_min :: "jsnum \<Rightarrow> jsnum \<Rightarrow> jsnum" where
  "js_min a b = (if a = NaN \<or> b = NaN then NaN else if num_lt b a then b else a)"

definition js_max :: "jsnum \<Rightarrow> jsnum \<Rightarrow> jsnum" where
  "js_max a b = (if a = NaN \<or> b = NaN then NaN else if num_lt a b then b else a)"

fun num_sub :: "jsnum \<Rightarrow> jsnum \<Rightarrow> jsnum" where
  "num_sub NaN b = NaN"
| "num_sub a NaN = NaN"
| "num_sub (Fin x) (Fin y) = Fin (x - y)"
| "num_sub (Fin x) PInf = NInf"
| "num_sub (Fin x) NInf = PInf"
| "num_sub PInf PInf = NaN"
| "num_sub PInf b = PInf"
| "num_sub NInf NInf = NaN"
| "num_sub NInf b = NInf"

subsection \<open>Coercions and property access\<close>

text \<open>
  \<open>Number(v)\<close>, as the number it returns.  On undefined, null, booleans and numbers the
  result is fixed by the language.  A string is parsed by the engine's numeric-literal
  grammar, and an array or object is first turned into a string; that part of the engine
  is the parameter \<open>cv\<close>.  Turning an array or object into a string can also throw: when
  it does is \<open>coercion_raises\<close> below, and \<open>Number_result\<close> is the call with that
  outcome.
\<close>

fun Number :: "(jsval \<Rightarrow> jsnum) \<Rightarrow> jsval \<Rightarrow> jsnum" where
  "Number cv JUndef = NaN"
| "Number cv JNull = Fin 0"
| "Number cv (JBool b) = Fin (if b then 1 else 0)"
| "Number cv (JNum n) = n"
| "Number cv v = cv v"


text \<open>\<open>x ?? d\<close>: only undefined and null are replaced.\<close>

fun nullish_or :: "jsval \<Rightarrow> jsval \<Rightarrow> jsval" where
  "nullish_or JUndef d = d"
| "nullish_or JNull d = d"
| "nullish_or v d = v"

text \<open>\<open>o.k\<close> on an object: the property's value, or undefined when it is absent.\<close>

definition get_prop :: "jsobj \<Rightarrow> string \<Rightarrow> jsval" where
  "get_prop ob k = (case map_of ob k of None \<Rightarrow> JUndef | Some v \<Rightarrow> v)"


text \<open>\<open>{ ...base, ...e }\<close>: the properties of \<open>e\<close> are assigned in order over the
  properties already written; an existing key keeps its place and takes the new value.\<close>

definition spread :: "jsobj \<Rightarrow> jsobj \<Rightarrow> jsobj" where
  "spread base e = fold (\<lambda>(k, v) ob. AList.update k v ob) e base"

section \<open>sequence\_viewer.js\<close>

subsection \<open>clampSegs\<close>

text \<open>
  \<open>L\<close> is always the length of the sequence string; \<open>L - 1\<close> is \<open>-1\<close> for the empty
  sequence.  An element pushed to \<open>out\<close> has passed \<open>Number.isFinite\<close> on both
  endpoints, so \<open>out\<close> is a list of pairs of finite numbers.
\<close>

definition clamp_endpoint :: "(jsval \<Rightarrow> jsnum) \<Rightarrow> nat \<Rightarrow> jsval \<Rightarrow> jsnum" where
  "clamp_endpoint cv L v = js_max (Fin 0) (js_min (Fin (of_nat L - 1)) (Number cv v))"

text \<open>The body of the loop for one entry \<open>s\<close>: \<open>None\<close> is \<open>continue\<close>, \<open>Some p\<close> is
  \<open>out.push(p)\<close>.\<close>

definition clamp_entry :: "(jsval \<Rightarrow> jsnum) \<Rightarrow> nat \<Rightarrow> jsval \<Rightarrow> (rat \<times> rat) option" where
  "clamp_entry cv L s =
     (case s of
        JArr xs \<Rightarrow>
          if length xs < 2 then None
          else (case (clamp_endpoint cv L (xs ! 0), clamp_endpoint cv L (xs ! 1)) of
                  (Fin a, Fin b) \<Rightarrow> Some (if b < a then (b, a) else (a, b))
                | _ \<Rightarrow> None)
      | _ \<Rightarrow> None)"

fun clampSegs_loop ::
  "(jsval \<Rightarrow> jsnum) \<Rightarrow> nat \<Rightarrow> jsval list \<Rightarrow> (rat \<times> rat) list \<Rightarrow> (rat \<times> rat) list" where
  "clampSegs_loop cv L [] out = out"
| "clampSegs_loop cv L (s # rest) out =
     (case clamp_entry cv L s of
        None \<Rightarrow> clampSegs_loop cv L rest out
      | Some p \<Rightarrow> clampSegs_loop cv L rest (out @ [p]))"

definition clampSegs :: "(jsval \<Rightarrow> jsnum) \<Rightarrow> jsval \<Rightarrow> nat \<Rightarrow> (rat \<times> rat) list" where
  "clampSegs cv segs L = (case segs of JArr ss \<Rightarrow> clampSegs_loop cv L ss [] | _ \<Rightarrow> [])"

text \<open>The list returned by \<open>clampSegs\<close>, as the JavaScript value it is: an array of
  two-element arrays of numbers.\<close>

definition segs_value :: "(rat \<times> rat) list \<Rightarrow> jsval" where
  "segs_value ps = JArr (map (\<lambda>(a, b). JArr [JNum (Fin a), JNum (Fin b)]) ps)"

subsection \<open>segmentsToMask\<close>

text \<open>
  \<open>mask[i] = v\<close>.  When \<open>i\<close> is a non-negative integer the element is written, and the
  array grows when \<open>i\<close> is past its end; any other \<open>i\<close> names a plain property and leaves
  the elements alone.  The mask is only ever tested for truth, so a hole (undefined) is
  written \<open>False\<close>.
\<close>

definition array_set :: "bool list \<Rightarrow> rat \<Rightarrow> bool \<Rightarrow> bool list" where
  "array_set xs i v =
     (if of_int \<lfloor>i\<rfloor> = i \<and> 0 \<le> i then
        (let n = nat \<lfloor>i\<rfloor> in
         if n < length xs then xs[n := v] else xs @ replicate (n - length xs) False @ [v])
      else xs)"

text \<open>\<open>for (let i = a; i <= b; i++) mask[i] = true\<close>\<close>

function mark_range :: "rat \<Rightarrow> rat \<Rightarrow> bool list \<Rightarrow> bool list" where
  "mark_range i b msk = (if i \<le> b then mark_range (i + 1) b (array_set msk i True) else msk)"
  by pat_completeness auto
termination
  by (relation "measure (\<lambda>(i, b, msk). nat \<lceil>b - i + 1\<rceil>)") (auto, linarith)

declare mark_range.simps [simp del]

definition segmentsToMask :: "(jsval \<Rightarrow> jsnum) \<Rightarrow> jsval \<Rightarrow> nat \<Rightarrow> bool list" where
  "segmentsToMask cv segs L =
     fold (\<lambda>(a, b) msk. mark_range a b msk) (clampSegs cv segs L) (replicate L False)"

text \<open>\<open>mask[i]\<close> read as a condition: an index past the end gives undefined, which is
  falsy.\<close>

definition mask_at :: "bool list \<Rightarrow> nat \<Rightarrow> bool" where
  "mask_at msk i = (i < length msk \<and> msk ! i)"

subsection \<open>topPositionsToMap\<close>



subsection \<open>renderExampleHTML\<close>












section \<open>app.js\<close>

subsection \<open>Graph data\<close>

text \<open>A graph file holds an array of node records and an array of edge records.  The
  result wraps each record as \<open>{ data: ... }\<close>.\<close>

record graph =
  nodes :: "jsobj list"
  edges :: "jsobj list"

text \<open>The records of a decoded graph file have pairwise distinct keys.\<close>

definition wf_graph :: "graph \<Rightarrow> bool" where
  "wf_graph g =
     (list_all (\<lambda>n. distinct (map fst n)) (nodes g) \<and> list_all (\<lambda>e. distinct (map fst e)) (edges g))"

datatype element = Element (data: jsobj)

record elements =
  el_nodes :: "element list"
  el_edges :: "element list"

subsection \<open>Building the elements\<close>

text \<open>The index \<open>idx\<close> printed inside the template literal \<open>`e${idx}`\<close>: a non-negative
  integer in decimal.\<close>

fun to_decimal :: "nat \<Rightarrow> string" where
  "to_decimal n =
     (if n < 10 then [''0123456789'' ! n]
      else to_decimal (n div 10) @ [''0123456789'' ! (n mod 10)])"

declare to_decimal.simps [simp del]

definition node_element :: "jsobj \<Rightarrow> element" where
  "node_element n = Element (spread [(''id'', get_prop n ''id'')] n)"

definition edge_element :: "nat \<Rightarrow> jsobj \<Rightarrow> element" where
  "edge_element idx e =
     Element (spread [(''id'', JStr (''e'' @ to_decimal idx)),
                      (''source'', get_prop e ''src''),
                      (''target'', get_prop e ''dst'')] e)"

text \<open>\<open>(e.weight ?? 0)\<close> as a number: both \<open>>=\<close> against a number and \<open>-\<close> coerce
  their operand with \<open>Number\<close>.\<close>

definition weight_of :: "(jsval \<Rightarrow> jsnum) \<Rightarrow> jsobj \<Rightarrow> jsnum" where
  "weight_of cv e = Number cv (nullish_or (get_prop e ''weight'') (JNum (Fin 0)))"

text \<open>The filter predicate \<open>(e.weight ?? 0) >= minEdgeWeight\<close>\<close>

definition weight_ok :: "(jsval \<Rightarrow> jsnum) \<Rightarrow> jsnum \<Rightarrow> jsobj \<Rightarrow> bool" where
  "weight_ok cv minEdgeWeight e = num_ge (weight_of cv e) minEdgeWeight"

subsection \<open>Grouping by source\<close>

text \<open>
  \<open>bySrc\<close> is a \<open>Map\<close>: its entries in insertion order, keys compared by SameValueZero.
  Primitive keys are equal when they are the same value.  An array or object key is a
  reference, and in decoded JSON no two edges share one, so such a key equals no key
  already in the map.
\<close>

fun same_value_zero :: "jsval \<Rightarrow> jsval \<Rightarrow> bool" where
  "same_value_zero (JArr xs) b = False"
| "same_value_zero (JObj ps) b = False"
| "same_value_zero a b = (a = b)"

definition map_has :: "(jsval \<times> 'v) list \<Rightarrow> jsval \<Rightarrow> bool" where
  "map_has m k = list_ex (\<lambda>(k', v). same_value_zero k' k) m"

text \<open>One round of the loop: \<open>if (!bySrc.has(src)) bySrc.set(src, []);
  bySrc.get(src).push(e)\<close>\<close>

definition source_of :: "element \<Rightarrow> jsval" where
  "source_of e = get_prop (data e) ''source''"

definition bySrc_add :: "(jsval \<times> element list) list \<Rightarrow> element \<Rightarrow> (jsval \<times> element list) list" where
  "bySrc_add bySrc e =
     (let src = source_of e in
      if \<not> map_has bySrc src then bySrc @ [(src, [e])]
      else map (\<lambda>(k, arr). if same_value_zero k src then (k, arr @ [e]) else (k, arr)) bySrc)"

subsection \<open>Sorting and slicing a group\<close>

text \<open>The comparator \<open>(a, b) => (b.data.weight ?? 0) - (a.data.weight ?? 0)\<close>\<close>

definition weight_compare :: "(jsval \<Rightarrow> jsnum) \<Rightarrow> element \<Rightarrow> element \<Rightarrow> jsnum" where
  "weight_compare cv a b = num_sub (weight_of cv (data b)) (weight_of cv (data a))"

text \<open>
  \<open>Array.prototype.sort\<close> is a stable sort: an element moves in front of another only
  when the comparator, called on the later and the earlier one, is negative (a NaN result
  counts as zero).  Insertion from the right computes that order.
\<close>

fun insert_sorted :: "('a \<Rightarrow> 'a \<Rightarrow> jsnum) \<Rightarrow> 'a \<Rightarrow> 'a list \<Rightarrow> 'a list" where
  "insert_sorted cmp x [] = [x]"
| "insert_sorted cmp x (y # ys) =
     (if num_lt (cmp y x) (Fin 0) then y # insert_sorted cmp x ys else x # y # ys)"

definition array_sort :: "('a \<Rightarrow> 'a \<Rightarrow> jsnum) \<Rightarrow> 'a list \<Rightarrow> 'a list" where
  "array_sort cmp xs = foldr (insert_sorted cmp) xs []"

text \<open>
  \<open>arr.slice(0, end)\<close> for a number \<open>end\<close>: it is truncated to an integer (NaN gives 0);
  a negative end counts from the end of the array.
\<close>

definition array_slice0 :: "'a list \<Rightarrow> jsnum \<Rightarrow> 'a list" where
  "array_slice0 xs e =
     (case e of
        NaN \<Rightarrow> []
      | NInf \<Rightarrow> []
      | PInf \<Rightarrow> xs
      | Fin r \<Rightarrow>
          (let k = (if 0 \<le> r then \<lfloor>r\<rfloor> else \<lceil>r\<rceil>) in
           if k < 0 then take (nat (int (length xs) + k)) xs else take (nat k) xs))"

subsection \<open>toCytoscapeElements\<close>

text \<open>The edges after the threshold filter and the \<open>map\<close> that wraps them.\<close>

definition filtered_edges :: "(jsval \<Rightarrow> jsnum) \<Rightarrow> graph \<Rightarrow> jsnum \<Rightarrow> element list" where
  "filtered_edges cv g minEdgeWeight =
     map (\<lambda>(idx, e). edge_element idx e)
       (enumerate 0 (filter (weight_ok cv minEdgeWeight) (edges g)))"

definition toCytoscapeElements :: "(jsval \<Rightarrow> jsnum) \<Rightarrow> graph \<Rightarrow> jsnum \<Rightarrow> jsnum \<Rightarrow> elements" where
  "toCytoscapeElements cv g minEdgeWeight maxEdgesPerNode =
     (let ns = map node_element (nodes g);
          es = filtered_edges cv g minEdgeWeight;
          bySrc = fold (\<lambda>e m. bySrc_add m e) es [];
          prunedEdges =
            concat (map (\<lambda>(src, arr).
                      array_slice0 (array_sort (weight_compare cv) arr) maxEdgesPerNode) bySrc)
      in \<lparr>el_nodes = ns, el_edges = prunedEdges\<rparr>)"

section \<open>Calls that throw\<close>

text \<open>
  The definitions above give the value a call returns.  A call can also end by throwing.
  Converting an array or an object to a number first asks it for a primitive value, and
  that request throws a \<open>TypeError\<close> when the object has no callable \<open>toString\<close> and
  \<open>valueOf\<close> gives no primitive.  In decoded JSON every property value is data, never a
  function, so the request throws exactly for an object that has a key \<open>toString\<close> of its
  own, and for an array that holds such an object, directly or inside nested arrays (an
  array is joined from the strings of its elements).  Every other value is converted
  without throwing.  The definitions with the suffix \<open>_result\<close> repeat the code with
  that outcome.
\<close>

datatype js_error = TypeError

fun is_primitive :: "jsval \<Rightarrow> bool" where
  "is_primitive (JArr xs) = False"
| "is_primitive (JObj ps) = False"
| "is_primitive v = True"

fun coercion_raises :: "jsval \<Rightarrow> bool" where
  "coercion_raises (JObj ps) = (''toString'' \<in> set (map fst ps))"
| "coercion_raises (JArr xs) = list_ex coercion_raises xs"
| "coercion_raises v = False"

text \<open>\<open>Number(v)\<close>, and likewise the coercion of \<open>v\<close> by \<open>>=\<close> against a number\<close>

definition Number_result :: "(jsval \<Rightarrow> jsnum) \<Rightarrow> jsval \<Rightarrow> js_error + jsnum" where
  "Number_result cv v = (if coercion_raises v then Inl TypeError else Inr (Number cv v))"

subsection \<open>clampSegs\<close>

text \<open>The loop body: an entry that passes the two guards has \<open>Number(s[0])\<close> and then
  \<open>Number(s[1])\<close> evaluated; when both return, the body goes on as \<open>clamp_entry\<close>.\<close>

definition clamp_entry_result ::
  "(jsval \<Rightarrow> jsnum) \<Rightarrow> nat \<Rightarrow> jsval \<Rightarrow> js_error + (rat \<times> rat) option" where
  "clamp_entry_result cv L s =
     (case s of
        JArr xs \<Rightarrow>
          if length xs < 2 then Inr None
          else (case Number_result cv (xs ! 0) of
                  Inl err \<Rightarrow> Inl err
                | Inr a \<Rightarrow>
                    (case Number_result cv (xs ! 1) of
                       Inl err \<Rightarrow> Inl err
                     | Inr b \<Rightarrow> Inr (clamp_entry cv L s)))
      | _ \<Rightarrow> Inr None)"

fun clampSegs_loop_result ::
  "(jsval \<Rightarrow> jsnum) \<Rightarrow> nat \<Rightarrow> jsval list \<Rightarrow> (rat \<times> rat) list \<Rightarrow> js_error + (rat \<times> rat) list" where
  "clampSegs_loop_result cv L [] out = Inr out"
| "clampSegs_loop_result cv L (s # rest) out =
     (case clamp_entry_result cv L s of
        Inl err \<Rightarrow> Inl err
      | Inr None \<Rightarrow> clampSegs_loop_result cv L rest out
      | Inr (Some p) \<Rightarrow> clampSegs_loop_result cv L rest (out @ [p]))"

definition clampSegs_result ::
  "(jsval \<Rightarrow> jsnum) \<Rightarrow> jsval \<Rightarrow> nat \<Rightarrow> js_error + (rat \<times> rat) list" where
  "clampSegs_result cv segs L =
     (case segs of JArr ss \<Rightarrow> clampSegs_loop_result cv L ss [] | _ \<Rightarrow> Inr [])"

text \<open>The entries on which the loop body throws.\<close>

definition entry_raises :: "jsval \<Rightarrow> bool" where
  "entry_raises s =
     (case s of
        JArr xs \<Rightarrow> 2 \<le> length xs \<and> (coercion_raises (xs ! 0) \<or> coercion_raises (xs ! 1))
      | _ \<Rightarrow> False)"

subsection \<open>toCytoscapeElements\<close>

text \<open>The filter callback \<open>e => (e.weight ?? 0) >= minEdgeWeight\<close>\<close>

definition weight_ok_result :: "(jsval \<Rightarrow> jsnum) \<Rightarrow> jsnum \<Rightarrow> jsobj \<Rightarrow> js_error + bool" where
  "weight_ok_result cv minEdgeWeight e =
     (case Number_result cv (nullish_or (get_prop e ''weight'') (JNum (Fin 0))) of
        Inl err \<Rightarrow> Inl err
      | Inr w \<Rightarrow> Inr (num_ge w minEdgeWeight))"

text \<open>\<open>xs.filter(f)\<close>: the callback runs on every element in order, and the first call that
  throws ends the filter.\<close>

fun filter_result :: "('a \<Rightarrow> js_error + bool) \<Rightarrow> 'a list \<Rightarrow> js_error + 'a list" where
  "filter_result f [] = Inr []"
| "filter_result f (x # xs) =
     (case f x of
        Inl err \<Rightarrow> Inl err
      | Inr keep \<Rightarrow>
          (case filter_result f xs of
             Inl err \<Rightarrow> Inl err
           | Inr rest \<Rightarrow> Inr (if keep then x # rest else rest)))"

text \<open>
  The whole function.  Building the nodes and wrapping, grouping and slicing the edges
  coerce nothing.  The comparator of the sort coerces the weights of edges that have
  passed the filter, where the same coercion has returned already.
\<close>

definition toCytoscapeElements_result ::
  "(jsval \<Rightarrow> jsnum) \<Rightarrow> graph \<Rightarrow> jsnum \<Rightarrow> jsnum \<Rightarrow> js_error + elements" where
  "toCytoscapeElements_result cv g minEdgeWeight maxEdgesPerNode =
     (let ns = map node_element (nodes g) in
      case filter_result (weight_ok_result cv minEdgeWeight) (edges g) of
        Inl err \<Rightarrow> Inl err
      | Inr passed \<Rightarrow>
          (let es = map (\<lambda>(idx, e). edge_element idx e) (enumerate 0 passed);
               bySrc = fold (\<lambda>e m. bySrc_add m e) es [];
               prunedEdges =
                 concat (map (\<lambda>(src, arr).
                           array_slice0 (array_sort (weight_compare cv) arr) maxEdgesPerNode) bySrc)
           in Inr \<lparr>el_nodes = ns, el_edges = prunedEdges\<rparr>))"

text \<open>The edges on which the filter callback throws.\<close>

definition weight_raises :: "jsobj \<Rightarrow> bool" where
  "weight_raises e = coercion_raises (nullish_or (get_prop e ''weight'') (JNum (Fin 0)))"

section \<open>Data for the worked examples\<close>

text \<open>A conversion that reads no string, array or object as a number.  The examples use
  it where no such value is coerced, or where the engine's answer is NaN as well.\<close>

definition cv_none :: "jsval \<Rightarrow> jsnum" where
  "cv_none v = NaN"

text \<open>Five edges out of node \<open>A\<close>, with weights 0.9, 0.9, 0.1, 0.5 and 0.01, and two
  nodes.\<close>

definition edgeA :: "string \<Rightarrow> rat \<Rightarrow> jsobj" where
  "edgeA dst w = [(''src'', JStr ''A''), (''dst'', JStr dst), (''weight'', JNum (Fin w))]"

definition graphA :: graph where
  "graphA =
     \<lparr>nodes = [[(''id'', JStr ''A''), (''kind'', JStr ''feature'')],
               [(''id'', JStr ''Z''), (''kind'', JStr ''behavior'')]],
      edges = [edgeA ''B'' (9 / 10), edgeA ''C'' (9 / 10), edgeA ''D'' (1 / 10),
               edgeA ''E'' (1 / 2), edgeA ''F'' (1 / 100)]\<rparr>"

text \<open>Two edges that carry the same field \<open>id\<close> of their own.\<close>

definition graphOwnId :: graph where
  "graphOwnId =
     \<lparr>nodes = [],
      edges = [[(''id'', JStr ''x''), (''src'', JStr ''A''), (''dst'', JStr ''B''), (''weight'', JNum (Fin 1))],
               [(''id'', JStr ''x''), (''src'', JStr ''A''), (''dst'', JStr ''C''), (''weight'', JNum (Fin 1))]]\<rparr>"


section \<open>Interval normalization\<close>

lemma clampSegs_loop_eq:
  "clampSegs_loop cv L ss out = out @ List.map_filter (clamp_entry cv L) ss"
  by (induction ss arbitrary: out) (auto split: option.splits)

lemma clampSegs_JArr: "clampSegs cv (JArr ss) L = List.map_filter (clamp_entry cv L) ss"
  by (simp add: clampSegs_def clampSegs_loop_eq)

lemma clamp_endpoint_cases:
  "clamp_endpoint cv L v =
     (case Number cv v of
        NaN \<Rightarrow> NaN
      | PInf \<Rightarrow> js_max (Fin 0) (Fin (of_nat L - 1))
      | NInf \<Rightarrow> Fin 0
      | Fin x \<Rightarrow> Fin (max 0 (min (of_nat L - 1) x)))"
  by (auto simp: clamp_endpoint_def js_max_def js_min_def split: jsnum.splits)

text \<open>A clamped endpoint is a fixed point of clamping.\<close>

lemma clamp_endpoint_range:
  assumes "clamp_endpoint cv L v = Fin a"
  shows "a = max 0 (min (of_nat L - 1) a)"
  using assms
  by (auto simp: clamp_endpoint_cases js_max_def split: jsnum.splits if_splits)

lemma clamp_entry_fix:
  assumes "clamp_entry cv L s = Some (a, b)"
  shows "a \<le> b \<and> a = max 0 (min (of_nat L - 1) a) \<and> b = max 0 (min (of_nat L - 1) b)"
  using assms
  by (auto simp: clamp_entry_def split: jsval.splits if_splits jsnum.splits
      dest: clamp_endpoint_range)

lemma clamp_entry_pair:
  assumes "a \<le> b" "a = max 0 (min (of_nat L - 1) a)" "b = max 0 (min (of_nat L - 1) b)"
  shows "clamp_entry cv L (JArr [JNum (Fin a), JNum (Fin b)]) = Some (a, b)"
  using assms by (auto simp: clamp_entry_def clamp_endpoint_cases)

lemma set_clampSegs:
  "p \<in> set (clampSegs cv segs L) \<Longrightarrow> \<exists>s. clamp_entry cv L s = Some p"
  by (cases segs) (auto simp: clampSegs_def clampSegs_loop_eq List.map_filter_def)

lemma clampSegs_in_range:
  assumes "0 < L" "(a, b) \<in> set (clampSegs cv segs L)"
  shows "0 \<le> a \<and> a \<le> b \<and> b \<le> of_nat L - 1"
proof -
  from assms(2) obtain s where "clamp_entry cv L s = Some (a, b)"
    by (auto dest: set_clampSegs)
  then have *: "a \<le> b" "a = max 0 (min (of_nat L - 1) a)" "b = max 0 (min (of_nat L - 1) b)"
    by (auto dest: clamp_entry_fix)
  from assms(1) have "(0::rat) \<le> of_nat L - 1" by simp
  with * show ?thesis
    by (auto simp: min_def max_def split: if_splits)
qed

lemma clampSegs_fix:
  assumes "\<forall>(a, b) \<in> set ps.
     a \<le> b \<and> a = max 0 (min (of_nat L - 1) a) \<and> b = max 0 (min (of_nat L - 1) b)"
  shows "clampSegs cv (segs_value ps) L = ps"
  using assms
proof (induction ps)
  case Nil
  then show ?case by (simp add: segs_value_def clampSegs_JArr)
next
  case (Cons p ps)
  obtain a b where p: "p = (a, b)" by (cases p)
  from Cons.prems p have "clamp_entry cv L (JArr [JNum (Fin a), JNum (Fin b)]) = Some (a, b)"
    by (intro clamp_entry_pair) auto
  moreover from Cons have "clampSegs cv (segs_value ps) L = ps" by simp
  ultimately show ?case
    by (simp add: p segs_value_def clampSegs_JArr)
qed

subsection \<open>When normalization throws\<close>

lemma is_primitive_not_raises: "is_primitive v \<Longrightarrow> \<not> coercion_raises v"
  by (cases v) auto

lemma clamp_entry_result_eq:
  "clamp_entry_result cv L s =
     (if entry_raises s then Inl TypeError else Inr (clamp_entry cv L s))"
  by (auto simp: clamp_entry_result_def entry_raises_def Number_result_def clamp_entry_def
      split: jsval.splits)

lemma clampSegs_loop_result_eq:
  "clampSegs_loop_result cv L ss out =
     (if list_ex entry_raises ss then Inl TypeError else Inr (clampSegs_loop cv L ss out))"
  by (induction ss arbitrary: out) (auto simp: clamp_entry_result_eq split: option.splits)

lemma clampSegs_result_eq:
  "clampSegs_result cv (JArr ss) L =
     (if list_ex entry_raises ss then Inl TypeError else Inr (clampSegs cv (JArr ss) L))"
  by (simp add: clampSegs_result_def clampSegs_def clampSegs_loop_result_eq)

lemma primitive_entry_not_raises:
  assumes "case s of JArr xs \<Rightarrow> list_all is_primitive xs | _ \<Rightarrow> True"
  shows "\<not> entry_raises s"
proof (cases s)
  case (JArr xs)
  with assms have all: "\<forall>n < length xs. is_primitive (xs ! n)" by (simp add: list_all_length)
  have "\<not> coercion_raises (xs ! 0)" "\<not> coercion_raises (xs ! 1)" if "2 \<le> length xs"
  proof -
    from that have "0 < length xs" "1 < length xs" by linarith+
    with all have "is_primitive (xs ! 0)" "is_primitive (xs ! 1)" by blast+
    then show "\<not> coercion_raises (xs ! 0)" "\<not> coercion_raises (xs ! 1)"
      by (simp_all add: is_primitive_not_raises)
  qed
  with JArr show ?thesis by (auto simp: entry_raises_def)
qed (simp_all add: entry_raises_def)

text \<open>
  C5 (as amended).  \<open>clampSegs\<close> treats each entry on its own and keeps the order of the
  survivors.  Something that is not an array gives the empty list.  An entry that is not
  an array, or an array with fewer than two elements, is dropped.  An entry one of whose
  first two elements coerces to NaN is dropped.  An entry whose first two elements coerce
  to finite numbers survives as the pair of the two clamped values, smaller first, where
  clamping \<open>v\<close> is \<open>max 0 (min (L - 1) v)\<close>.  For a non-empty sequence every survivor
  \<open>(a, b)\<close> has \<open>0 \<le> a \<le> b \<le> L - 1\<close>.  Dropping is silent.  The call fails, with a
  \<open>TypeError\<close>, exactly when it meets an entry for which coercing one of the first two
  elements throws; otherwise it returns the list described here, and it always does when
  the elements of the entries are primitive values.
\<close>

theorem clampSegs_normalizes:
  "clampSegs cv (JArr (ss @ ts)) L = clampSegs cv (JArr ss) L @ clampSegs cv (JArr ts) L
   \<and> ((\<forall>ss. segs \<noteq> JArr ss) \<longrightarrow> clampSegs cv segs L = [])
   \<and> ((\<forall>xs. s \<noteq> JArr xs) \<longrightarrow> clampSegs cv (JArr [s]) L = [])
   \<and> (length xs < 2 \<longrightarrow> clampSegs cv (JArr [JArr xs]) L = [])
   \<and> (2 \<le> length xs \<and> (Number cv (xs ! 0) = NaN \<or> Number cv (xs ! 1) = NaN)
        \<longrightarrow> clampSegs cv (JArr [JArr xs]) L = [])
   \<and> (2 \<le> length xs \<and> Number cv (xs ! 0) = Fin x \<and> Number cv (xs ! 1) = Fin y
        \<longrightarrow> clampSegs cv (JArr [JArr xs]) L =
              [(min (max 0 (min (of_nat L - 1) x)) (max 0 (min (of_nat L - 1) y)),
                max (max 0 (min (of_nat L - 1) x)) (max 0 (min (of_nat L - 1) y)))])
   \<and> (0 < L \<longrightarrow>
        (\<forall>(a, b) \<in> set (clampSegs cv segs L). 0 \<le> a \<and> a \<le> b \<and> b \<le> of_nat L - 1))
   \<and> ((\<forall>ss. segs \<noteq> JArr ss) \<longrightarrow> clampSegs_result cv segs L = Inr [])
   \<and> (\<not> list_ex entry_raises ss \<longrightarrow>
        clampSegs_result cv (JArr ss) L = Inr (clampSegs cv (JArr ss) L))
   \<and> (list_ex entry_raises ss \<longrightarrow> clampSegs_result cv (JArr ss) L = Inl TypeError)
   \<and> ((\<forall>s \<in> set ss. case s of JArr xs \<Rightarrow> list_all is_primitive xs | _ \<Rightarrow> True) \<longrightarrow>
        clampSegs_result cv (JArr ss) L = Inr (clampSegs cv (JArr ss) L))"
proof (intro conjI impI)
  show "clampSegs cv (JArr (ss @ ts)) L = clampSegs cv (JArr ss) L @ clampSegs cv (JArr ts) L"
    by (simp add: clampSegs_JArr List.map_filter_def)
  show "clampSegs cv segs L = []" if "\<forall>ss. segs \<noteq> JArr ss"
    using that by (cases segs) (simp_all add: clampSegs_def)
  show "clampSegs cv (JArr [s]) L = []" if "\<forall>xs. s \<noteq> JArr xs"
    using that by (cases s) (simp_all add: clampSegs_JArr clamp_entry_def)
  show "clampSegs cv (JArr [JArr xs]) L = []" if "length xs < 2"
    using that by (simp add: clampSegs_JArr clamp_entry_def)
  show "clampSegs cv (JArr [JArr xs]) L = []"
    if "2 \<le> length xs \<and> (Number cv (xs ! 0) = NaN \<or> Number cv (xs ! 1) = NaN)"
    using that
    by (auto simp: clampSegs_JArr clamp_entry_def clamp_endpoint_cases split: jsnum.splits)
  show "clampSegs cv (JArr [JArr xs]) L =
              [(min (max 0 (min (of_nat L - 1) x)) (max 0 (min (of_nat L - 1) y)),
                max (max 0 (min (of_nat L - 1) x)) (max 0 (min (of_nat L - 1) y)))]"
    if "2 \<le> length xs \<and> Number cv (xs ! 0) = Fin x \<and> Number cv (xs ! 1) = Fin y"
    using that
    by (simp add: clampSegs_JArr clamp_entry_def clamp_endpoint_cases)
       (simp add: min_def max_def)
  show "\<forall>(a, b) \<in> set (clampSegs cv segs L). 0 \<le> a \<and> a \<le> b \<and> b \<le> of_nat L - 1"
    if "0 < L"
    using that clampSegs_in_range by blast
  show "clampSegs_result cv segs L = Inr []" if "\<forall>ss. segs \<noteq> JArr ss"
    using that by (cases segs) (simp_all add: clampSegs_result_def)
  show "clampSegs_result cv (JArr ss) L = Inr (clampSegs cv (JArr ss) L)"
    if "\<not> list_ex entry_raises ss"
    using that by (simp add: clampSegs_result_eq)
  show "clampSegs_result cv (JArr ss) L = Inl TypeError" if "list_ex entry_raises ss"
    using that by (simp add: clampSegs_result_eq)
  show "clampSegs_result cv (JArr ss) L = Inr (clampSegs cv (JArr ss) L)"
    if "\<forall>s \<in> set ss. case s of JArr xs \<Rightarrow> list_all is_primitive xs | _ \<Rightarrow> True"
  proof -
    from that have "\<not> list_ex entry_raises ss"
      by (auto simp: list_ex_iff dest: primitive_entry_not_raises)
    then show ?thesis by (simp add: clampSegs_result_eq)
  qed
qed

theorem clampSegs_normalizes_witness:
  "clampSegs cv_none (JArr ([JArr [JNum (Fin 7), JNum (Fin 1)]] @ [JNull])) 5 = [(1, 4)]
   \<and> clampSegs cv_none JNull 5 = []
   \<and> clampSegs cv_none (JArr [JStr ''3-5'']) 5 = []
   \<and> clampSegs cv_none (JArr [JArr [JNum (Fin 3)]]) 5 = []
   \<and> clampSegs cv_none (JArr [JArr [JUndef, JNum (Fin 3)]]) 5 = []
   \<and> clampSegs cv_none (JArr [JArr [JNum (Fin 7), JNum (Fin 1)]]) 5 = [(1, 4)]
   \<and> (0::nat) < 5
   \<and> clampSegs_result cv_none JNull 5 = Inr []
   \<and> clampSegs_result cv_none (JArr [JArr [JNum (Fin 7), JNum (Fin 1)], JNull]) 5 = Inr [(1, 4)]
   \<and> clampSegs_result cv_none
        (JArr [JArr [JNum (Fin 7), JNum (Fin 1)],
               JArr [JObj [(''toString'', JNum (Fin 1))], JNum (Fin 2)]]) 5 = Inl TypeError"
  using clampSegs_normalizes [of cv_none "[JArr [JNum (Fin 7), JNum (Fin 1)]]" "[JNull]" 5 JNull
      "JStr ''3-5''" "[JNum (Fin 3)]" 7 1]
    clampSegs_normalizes [of cv_none "[]" "[]" 5 "JArr [JArr [JNum (Fin 7), JNum (Fin 1)]]"
      JNull "[JUndef, JNum (Fin 3)]" 0 0]
    clampSegs_normalizes [of cv_none "[]" "[]" 5 JNull JNull "[JNum (Fin 7), JNum (Fin 1)]" 7 1]
    clampSegs_normalizes [of cv_none "[JArr [JNum (Fin 7), JNum (Fin 1)], JNull]" "[]" 5 JNull
      JNull "[]" 0 0]
    clampSegs_normalizes [of cv_none "[JArr [JNum (Fin 7), JNum (Fin 1)],
               JArr [JObj [(''toString'', JNum (Fin 1))], JNum (Fin 2)]]" "[]" 5 JNull
      JNull "[]" 0 0]
  by (simp add: clampSegs_JArr clamp_entry_def clamp_endpoint_cases cv_none_def entry_raises_def)

text \<open>
  C5 as it is written fails in four places.  An entry with an infinite endpoint is not
  dropped: the endpoint is clamped before \<open>Number.isFinite\<close> is asked.  An array of three
  elements is not dropped: its first two elements are used.  For the empty sequence the
  surviving pair is \<open>(0, 0)\<close>, which is not inside \<open>[0, L - 1]\<close>.  And an entry can be
  fatal: an endpoint that is an object with a key \<open>toString\<close> makes the call throw.
\<close>

theorem clampSegs_drop_claim_counterexample:
  "clampSegs cv_none (JArr [JArr [JNum PInf, JNum (Fin 2)]]) 5 = [(2, 4)]
   \<and> clampSegs cv_none (JArr [JArr [JNum (Fin 1), JNum (Fin 2), JNum (Fin 3)]]) 5 = [(1, 2)]
   \<and> clampSegs cv_none (JArr [JArr [JNum (Fin 0), JNum (Fin 0)]]) 0 = [(0, 0)]
   \<and> clampSegs_result cv_none
        (JArr [JArr [JObj [(''toString'', JNum (Fin 1))], JNum (Fin 2)]]) 5 = Inl TypeError"
  by (simp add: clampSegs_JArr clamp_entry_def clamp_endpoint_cases js_max_def
      clampSegs_result_eq entry_raises_def)

text \<open>
  C9.  A list of pairs \<open>(a, b)\<close> with \<open>0 \<le> a \<le> b \<le> L - 1\<close>, handed to \<open>clampSegs\<close> as an
  array of two-element arrays of numbers, comes back unchanged; and normalizing the
  result of a normalization changes nothing, for every input.
\<close>

theorem clampSegs_identity_on_normalized:
  "((\<forall>(a, b) \<in> set ps. 0 \<le> a \<and> a \<le> b \<and> b \<le> of_nat L - 1)
      \<longrightarrow> clampSegs cv (segs_value ps) L = ps)
   \<and> clampSegs cv (segs_value (clampSegs cv segs L)) L = clampSegs cv segs L"
proof (intro conjI impI)
  assume "\<forall>(a, b) \<in> set ps. 0 \<le> a \<and> a \<le> b \<and> b \<le> of_nat L - 1"
  then show "clampSegs cv (segs_value ps) L = ps"
    by (intro clampSegs_fix) (auto simp: min_def max_def)
next
  show "clampSegs cv (segs_value (clampSegs cv segs L)) L = clampSegs cv segs L"
    by (rule clampSegs_fix) (auto dest!: set_clampSegs clamp_entry_fix)
qed

theorem clampSegs_identity_on_normalized_witness:
  "clampSegs cv_none (segs_value [(1, 3), (2, 2)]) 5 = [(1, 3), (2, 2)]
   \<and> clampSegs cv_none (segs_value (clampSegs cv_none (JArr [JArr [JNum (Fin 7), JNum (Fin 1)]]) 5)) 5
       = clampSegs cv_none (JArr [JArr [JNum (Fin 7), JNum (Fin 1)]]) 5"
  using clampSegs_identity_on_normalized
    [of "[(1, 3), (2, 2)]" 5 cv_none "JArr [JArr [JNum (Fin 7), JNum (Fin 1)]]"]
  by simp

section \<open>Masks\<close>

lemma mask_at_array_set:
  "mask_at (array_set xs i True) p \<longleftrightarrow> mask_at xs p \<or> of_nat p = i"
proof (cases "of_int \<lfloor>i\<rfloor> = i \<and> 0 \<le> i")
  case False
  then have "of_nat p \<noteq> i"
    by (metis of_int_of_nat_eq floor_of_nat of_nat_0_le_iff)
  moreover from False have "array_set xs i True = xs" by (auto simp: array_set_def)
  ultimately show ?thesis by simp
next
  case True
  then have eq: "of_nat p = i \<longleftrightarrow> p = nat \<lfloor>i\<rfloor>"
    by (metis floor_of_nat nat_int of_int_of_nat_eq of_nat_nat zero_le_floor)
  show ?thesis
    using True by (auto simp: array_set_def mask_at_def eq Let_def nth_append nth_list_update)
qed

text \<open>The loop from \<open>i\<close> to \<open>b\<close> marks the positions \<open>i\<close>, \<open>i + 1\<close>, \<dots> up to \<open>b\<close>.\<close>

lemma mask_at_mark_range:
  "mask_at (mark_range i b msk) p \<longleftrightarrow>
     mask_at msk p \<or> (\<exists>k::nat. of_nat p = i + of_nat k \<and> of_nat p \<le> b)"
proof (induction i b msk rule: mark_range.induct)
  case (1 i b msk)
  show ?case
  proof (cases "i \<le> b")
    case False
    then show ?thesis by (subst mark_range.simps) auto
  next
    case True
    have "(\<exists>k::nat. of_nat p = i + of_nat k \<and> of_nat p \<le> b) \<longleftrightarrow>
          of_nat p = i \<or> (\<exists>k::nat. of_nat p = i + 1 + of_nat k \<and> of_nat p \<le> b)"
      (is "?l \<longleftrightarrow> ?r")
    proof
      assume ?l
      then obtain k :: nat where k: "of_nat p = i + of_nat k" "of_nat p \<le> b" by blast
      show ?r
      proof (cases k)
        case 0
        with k show ?thesis by simp
      next
        case (Suc k')
        with k have "of_nat p = i + 1 + of_nat k'" by simp
        with k show ?thesis by blast
      qed
    next
      assume ?r
      then show ?l
      proof
        assume "of_nat p = i"
        with True have "of_nat p = i + of_nat (0::nat) \<and> of_nat p \<le> b" by simp
        then show ?l by blast
      next
        assume "\<exists>k::nat. of_nat p = i + 1 + of_nat k \<and> of_nat p \<le> b"
        then obtain k :: nat where "of_nat p = i + 1 + of_nat k" "of_nat p \<le> b" by blast
        then have "of_nat p = i + of_nat (Suc k) \<and> of_nat p \<le> b" by simp
        then show ?l by blast
      qed
    qed
    with True 1 show ?thesis
      by (subst mark_range.simps) (auto simp: mask_at_array_set)
  qed
qed

lemma mask_at_fold_mark:
  "mask_at (fold (\<lambda>(a, b) msk. mark_range a b msk) ps msk) p \<longleftrightarrow>
     mask_at msk p \<or> (\<exists>(a, b) \<in> set ps. \<exists>k::nat. of_nat p = a + of_nat k \<and> of_nat p \<le> b)"
  by (induction ps arbitrary: msk) (auto simp: mask_at_mark_range)

text \<open>A position is set in the mask exactly when one of the normalized segments reaches
  it in whole steps from its start.\<close>

lemma mask_at_segmentsToMask:
  "mask_at (segmentsToMask cv segs L) p \<longleftrightarrow>
     (\<exists>(a, b) \<in> set (clampSegs cv segs L). \<exists>k::nat. of_nat p = a + of_nat k \<and> of_nat p \<le> b)"
proof -
  have "\<not> mask_at (replicate L False) p" by (simp add: mask_at_def)
  then show ?thesis unfolding segmentsToMask_def mask_at_fold_mark by simp
qed

section \<open>Line wrapping\<close>








section \<open>The rendered lines\<close>





section \<open>Objects and edge identifiers\<close>

subsection \<open>spread\<close>

lemma map_of_fold_update:
  "map_of (fold (\<lambda>(k, v) ob. AList.update k v ob) e base) = map_of base ++ map_of (rev e)"
  by (induction e arbitrary: base)
     (auto simp: update_conv' fun_eq_iff map_add_def split: option.splits)

lemma map_of_rev_distinct: "distinct (map fst e) \<Longrightarrow> map_of (rev e) = map_of e"
  by (metis distinct_rev map_of_inject_set rev_map set_rev)

lemma map_of_rev_None: "map_of e k = None \<Longrightarrow> map_of (rev e) k = None"
  by (simp add: map_of_eq_None_iff)

lemma get_prop_spread_own:
  assumes "distinct (map fst e)" "map_of e k = Some v"
  shows "get_prop (spread base e) k = v"
  using assms by (simp add: get_prop_def spread_def map_of_fold_update map_of_rev_distinct)

lemma get_prop_spread_base:
  assumes "map_of e k = None"
  shows "get_prop (spread base e) k = get_prop base k"
  using assms
  by (simp add: get_prop_def spread_def map_of_fold_update map_of_rev_None map_add_def)

lemma get_prop_spread:
  assumes "distinct (map fst e)"
  shows "get_prop (spread base e) k = (case map_of e k of Some v \<Rightarrow> v | None \<Rightarrow> get_prop base k)"
  using assms get_prop_spread_own [of e k] get_prop_spread_base [of e k]
  by (auto split: option.splits)

subsection \<open>to_decimal\<close>

lemma to_decimal_nonempty: "to_decimal n \<noteq> []"
  by (subst to_decimal.simps) simp

lemma digit_inj: "a < 10 \<Longrightarrow> b < 10 \<Longrightarrow> ''0123456789'' ! a = ''0123456789'' ! b \<Longrightarrow> a = b"
proof -
  have "distinct ''0123456789''" by simp
  moreover assume "a < 10" "b < 10" "''0123456789'' ! a = ''0123456789'' ! b"
  ultimately show ?thesis by (simp add: nth_eq_iff_index_eq)
qed

lemma to_decimal_inj: "to_decimal n = to_decimal m \<Longrightarrow> n = m"
proof (induction n arbitrary: m rule: to_decimal.induct)
  case (1 n)
  show ?case
  proof (cases "n < 10")
    case True
    then have n: "to_decimal n = [''0123456789'' ! n]" by (subst to_decimal.simps) simp
    show ?thesis
    proof (cases "m < 10")
      case m: True
      then have "to_decimal m = [''0123456789'' ! m]" by (subst to_decimal.simps) simp
      with n 1(2) True m show ?thesis by (auto dest: digit_inj)
    next
      case False
      then have "to_decimal m = to_decimal (m div 10) @ [''0123456789'' ! (m mod 10)]"
        by (subst to_decimal.simps) simp
      with n 1(2) to_decimal_nonempty [of "m div 10"] show ?thesis by (cases "to_decimal (m div 10)") auto
    qed
  next
    case False
    then have n: "to_decimal n = to_decimal (n div 10) @ [''0123456789'' ! (n mod 10)]"
      by (subst to_decimal.simps) simp
    show ?thesis
    proof (cases "m < 10")
      case True
      then have "to_decimal m = [''0123456789'' ! m]" by (subst to_decimal.simps) simp
      with n 1(2) to_decimal_nonempty [of "n div 10"] show ?thesis by (cases "to_decimal (n div 10)") auto
    next
      case m: False
      then have "to_decimal m = to_decimal (m div 10) @ [''0123456789'' ! (m mod 10)]"
        by (subst to_decimal.simps) simp
      with n 1(2) have eq: "to_decimal (n div 10) = to_decimal (m div 10)"
        "''0123456789'' ! (n mod 10) = ''0123456789'' ! (m mod 10)" by auto
      from eq(1) False have "n div 10 = m div 10" by (rule 1(1) [rotated])
      moreover from eq(2) have "n mod 10 = m mod 10" by (intro digit_inj) auto
      ultimately show ?thesis by (metis div_mult_mod_eq)
    qed
  qed
qed

lemma distinct_mset_subseteq:
  assumes "mset ys \<subseteq># mset xs" "distinct xs"
  shows "distinct ys"
proof -
  have le: "count (mset ys) a \<le> 1" for a
  proof -
    have "count (mset ys) a \<le> count (mset xs) a" using assms(1) by (rule mset_subset_eq_count)
    also have "\<dots> \<le> 1" using assms(2) by (simp add: distinct_count_atmost_1)
    finally show ?thesis .
  qed
  have "count (mset ys) a = (if a \<in> set ys then 1 else 0)" for a
  proof (cases "a \<in> set ys")
    case True
    then have "0 < count (mset ys) a" by (simp only: count_greater_zero_iff set_mset_mset)
    with le [of a] have "count (mset ys) a = 1" by linarith
    with True show ?thesis by (simp only: if_True)
  next
    case False
    then show ?thesis by (simp add: count_eq_zero_iff)
  qed
  then show ?thesis by (simp add: distinct_count_atmost_1)
qed

section \<open>Sorting, slicing and grouping\<close>

subsection \<open>Numbers\<close>

lemma num_lt_sub: "num_lt (num_sub a b) (Fin 0) \<longleftrightarrow> num_lt a b"
  by (cases a; cases b) auto

lemma num_lt_irrefl: "\<not> num_lt a a"
  by (cases a) auto

lemma num_ge_trans: "num_ge a b \<Longrightarrow> num_ge b c \<Longrightarrow> num_ge a c"
  by (cases a; cases b; cases c) (auto simp: num_ge_def)

lemma num_ge_total: "a \<noteq> NaN \<Longrightarrow> b \<noteq> NaN \<Longrightarrow> num_lt a b \<or> num_ge a b"
  by (simp add: num_ge_def)

lemma num_lt_imp_ge: "num_lt a b \<Longrightarrow> num_ge b a"
  by (cases a; cases b) (auto simp: num_ge_def)

lemma num_lt_not_ge: "num_lt a b \<Longrightarrow> \<not> num_ge a b"
  by (simp add: num_ge_def)

subsection \<open>Sorting\<close>

lemma mset_insert_sorted: "mset (insert_sorted cmp x ys) = add_mset x (mset ys)"
  by (induction ys) auto

lemma mset_array_sort: "mset (array_sort cmp xs) = mset xs"
  by (induction xs) (auto simp: array_sort_def mset_insert_sorted)

lemma set_array_sort: "set (array_sort cmp xs) = set xs"
  by (metis mset_array_sort set_mset_mset)

lemma length_array_sort: "length (array_sort cmp xs) = length xs"
  by (metis mset_array_sort size_mset)

lemma filter_insert_sorted:
  assumes "\<And>y. num_lt (cmp y x) (Fin 0) \<Longrightarrow> \<not> Q y" 
  shows "filter Q (insert_sorted cmp x ys) = (if Q x then x # filter Q ys else filter Q ys)"
  using assms by (induction ys) auto

lemma weight_compare_lt:
  "num_lt (weight_compare cv y x) (Fin 0) \<longleftrightarrow> num_lt (weight_of cv (data x)) (weight_of cv (data y))"
  by (simp add: weight_compare_def num_lt_sub)

lemma array_sort_stable:
  "filter (\<lambda>d. weight_of cv (data d) = v) (array_sort (weight_compare cv) xs)
     = filter (\<lambda>d. weight_of cv (data d) = v) xs"
proof (induction xs)
  case Nil
  show ?case by (simp add: array_sort_def)
next
  case (Cons x xs)
  have "filter (\<lambda>d. weight_of cv (data d) = v) (insert_sorted (weight_compare cv) x ys)
      = (if weight_of cv (data x) = v then x # filter (\<lambda>d. weight_of cv (data d) = v) ys
         else filter (\<lambda>d. weight_of cv (data d) = v) ys)" for ys
  proof (cases "weight_of cv (data x) = v")
    case True
    then show ?thesis
      by (subst filter_insert_sorted) (auto simp: weight_compare_lt num_lt_irrefl)
  next
    case False
    then show ?thesis by (induction ys) auto
  qed
  with Cons show ?case by (simp add: array_sort_def)
qed

lemma sorted_insert_sorted:
  assumes "sorted_wrt (\<lambda>a b. num_ge (weight_of cv (data a)) (weight_of cv (data b))) ys"
    and "weight_of cv (data x) \<noteq> NaN" and "\<forall>y \<in> set ys. weight_of cv (data y) \<noteq> NaN"
  shows "sorted_wrt (\<lambda>a b. num_ge (weight_of cv (data a)) (weight_of cv (data b)))
           (insert_sorted (weight_compare cv) x ys)"
  using assms
proof (induction ys)
  case Nil
  then show ?case by simp
next
  case (Cons y ys)
  show ?case
  proof (cases "num_lt (weight_of cv (data x)) (weight_of cv (data y))")
    case True
    have "num_ge (weight_of cv (data y)) (weight_of cv (data z))"
      if "z \<in> set (insert_sorted (weight_compare cv) x ys)" for z
    proof -
      from that have "z = x \<or> z \<in> set ys"
        by (metis mset_insert_sorted set_mset_mset set_mset_add_mset_insert insertE)
      then show ?thesis using True Cons.prems(1) by (auto dest: num_lt_imp_ge)
    qed
    with True Cons show ?thesis by (auto simp: weight_compare_lt)
  next
    case False
    with Cons.prems have ge: "num_ge (weight_of cv (data x)) (weight_of cv (data y))"
      by (simp add: num_ge_def)
    with Cons.prems(1) have "num_ge (weight_of cv (data x)) (weight_of cv (data z))"
      if "z \<in> set ys" for z
      using that by (auto intro: num_ge_trans)
    with False ge Cons.prems(1) show ?thesis by (auto simp: weight_compare_lt)
  qed
qed

lemma sorted_array_sort:
  assumes "\<forall>d \<in> set xs. weight_of cv (data d) \<noteq> NaN"
  shows "sorted_wrt (\<lambda>a b. num_ge (weight_of cv (data a)) (weight_of cv (data b)))
           (array_sort (weight_compare cv) xs)"
  using assms
proof (induction xs)
  case Nil
  show ?case by (simp add: array_sort_def)
next
  case (Cons x xs)
  then have "sorted_wrt (\<lambda>a b. num_ge (weight_of cv (data a)) (weight_of cv (data b)))
      (insert_sorted (weight_compare cv) x (array_sort (weight_compare cv) xs))"
    by (intro sorted_insert_sorted) (auto simp: set_array_sort)
  then show ?case by (simp add: array_sort_def)
qed

subsection \<open>Slicing\<close>

lemma mset_take_subseteq: "mset (take n xs) \<subseteq># mset xs"
  by (metis append_take_drop_id mset_append mset_subset_eq_add_left)

lemma mset_array_slice0: "mset (array_slice0 xs e) \<subseteq># mset xs"
  by (auto simp: array_slice0_def Let_def mset_take_subseteq split: jsnum.splits)

lemma array_slice0_nat: "array_slice0 xs (Fin (of_nat k)) = take k xs"
  by (simp add: array_slice0_def)

subsection \<open>Grouping\<close>

lemma svz_eq: "same_value_zero a b \<Longrightarrow> a = b"
  by (cases a) auto

lemma svz_left: "same_value_zero a b \<Longrightarrow> same_value_zero a a"
  by (cases a) auto

lemma svz_sym: "same_value_zero a b \<Longrightarrow> same_value_zero b a"
  by (cases a) auto

lemma map_has_entries: "map_has m k \<longleftrightarrow> filter (\<lambda>(k', arr). same_value_zero k' k) m \<noteq> []"
  by (auto simp: map_has_def list_ex_iff filter_empty_conv)

lemma bySrc_add_new:
  assumes "\<not> map_has m (source_of e)"
  shows "bySrc_add m e = m @ [(source_of e, [e])]"
  using assms by (simp add: bySrc_add_def)

lemma bySrc_add_old:
  assumes "map_has m (source_of e)"
  shows "bySrc_add m e =
    map (\<lambda>(k, arr). if same_value_zero k (source_of e) then (k, arr @ [e]) else (k, arr)) m"
  using assms by (simp add: bySrc_add_def)

lemma filter_map_keys:
  "filter (\<lambda>(k, arr). P k) (map (\<lambda>(k, arr). if Q k then (k, f arr) else (k, arr)) m)
    = map (\<lambda>(k, arr). if Q k then (k, f arr) else (k, arr)) (filter (\<lambda>(k, arr). P k) m)"
  by (induction m) (auto split: if_splits)

lemma bySrc_fold_inv:
  "(\<forall>s. concat (map snd (filter (\<lambda>(k, arr). same_value_zero k s) (fold (\<lambda>e m. bySrc_add m e) es [])))
          = filter (\<lambda>d. same_value_zero (source_of d) s) es)
   \<and> (\<forall>s. length (filter (\<lambda>(k, arr). same_value_zero k s) (fold (\<lambda>e m. bySrc_add m e) es [])) \<le> 1)
   \<and> (\<forall>(k, arr) \<in> set (fold (\<lambda>e m. bySrc_add m e) es []). \<forall>d \<in> set arr. source_of d = k)
   \<and> mset (concat (map snd (fold (\<lambda>e m. bySrc_add m e) es []))) = mset es"
proof (induction es rule: rev_induct)
  case Nil
  show ?case by simp
next
  case (snoc e es)
  let ?m = "fold (\<lambda>e m. bySrc_add m e) es []"
  let ?src = "source_of e"
  from snoc have I1: "concat (map snd (filter (\<lambda>(k, arr). same_value_zero k s) ?m))
          = filter (\<lambda>d. same_value_zero (source_of d) s) es" for s by blast
  from snoc have I2: "length (filter (\<lambda>(k, arr). same_value_zero k s) ?m) \<le> 1" for s by blast
  from snoc have I3: "\<forall>(k, arr) \<in> set ?m. \<forall>d \<in> set arr. source_of d = k" by blast
  from snoc have I4: "mset (concat (map snd ?m)) = mset es" by blast
  have step: "fold (\<lambda>e m. bySrc_add m e) (es @ [e]) [] = bySrc_add ?m e" by simp
  show ?case
  proof (cases "map_has ?m ?src")
    case False
    then have new: "bySrc_add ?m e = ?m @ [(?src, [e])]" by (rule bySrc_add_new)
    have none: "filter (\<lambda>(k, arr). same_value_zero k s) ?m = []" if "same_value_zero ?src s" for s
    proof -
      from that have "s = ?src" by (auto dest: svz_eq)
      with False show ?thesis by (simp add: map_has_entries)
    qed
    have J1: "concat (map snd (filter (\<lambda>(k, arr). same_value_zero k s) (bySrc_add ?m e)))
          = filter (\<lambda>d. same_value_zero (source_of d) s) (es @ [e])" for s
      unfolding new using I1 [of s] by simp
    have J2: "length (filter (\<lambda>(k, arr). same_value_zero k s) (bySrc_add ?m e)) \<le> 1" for s
      unfolding new using I2 [of s] none [of s] by simp
    have J3: "\<forall>(k, arr) \<in> set (bySrc_add ?m e). \<forall>d \<in> set arr. source_of d = k"
      unfolding new using I3 by auto
    have J4: "mset (concat (map snd (bySrc_add ?m e))) = mset (es @ [e])"
      unfolding new using I4 by simp
    from J1 J2 J3 J4 show ?thesis unfolding step by blast
  next
    case True
    let ?upd = "\<lambda>(k, arr). if same_value_zero k ?src then (k, arr @ [e]) else (k, arr)"
    from True have old: "bySrc_add ?m e = map ?upd ?m" by (rule bySrc_add_old)
    have ent: "filter (\<lambda>(k, arr). same_value_zero k s) (map ?upd ?m)
        = map ?upd (filter (\<lambda>(k, arr). same_value_zero k s) ?m)" for s
      by (rule filter_map_keys)
    from True obtain k0 arr0 where one: "filter (\<lambda>(k, arr). same_value_zero k ?src) ?m = [(k0, arr0)]"
      using I2 [of ?src]
      by (cases "filter (\<lambda>(k, arr). same_value_zero k ?src) ?m") (auto simp: map_has_entries)
    then have "(k0, arr0) \<in> set (filter (\<lambda>(k, arr). same_value_zero k ?src) ?m)" by simp
    then have k0: "same_value_zero k0 ?src" by auto
    then have src: "same_value_zero ?src ?src" by (auto dest: svz_sym svz_left)
    have J1: "concat (map snd (filter (\<lambda>(k, arr). same_value_zero k s) (bySrc_add ?m e)))
          = filter (\<lambda>d. same_value_zero (source_of d) s) (es @ [e])" for s
    proof (cases "same_value_zero ?src s")
      case True
      then have "s = ?src" by (auto dest: svz_eq)
      with one k0 I1 [of ?src] True show ?thesis unfolding old ent by simp
    next
      case False
      have "map ?upd (filter (\<lambda>(k, arr). same_value_zero k s) ?m)
          = filter (\<lambda>(k, arr). same_value_zero k s) ?m"
      proof (rule map_idI)
        fix x assume "x \<in> set (filter (\<lambda>(k, arr). same_value_zero k s) ?m)"
        then obtain k arr where x: "x = (k, arr)" "same_value_zero k s" by auto
        have "\<not> same_value_zero k ?src"
        proof
          assume a: "same_value_zero k ?src"
          then have "k = ?src" by (rule svz_eq)
          with x(2) False show False by simp
        qed
        with x show "?upd x = x" by simp
      qed
      with False I1 [of s] show ?thesis unfolding old ent by simp
    qed
    have J2: "length (filter (\<lambda>(k, arr). same_value_zero k s) (bySrc_add ?m e)) \<le> 1" for s
      unfolding old ent using I2 [of s] by simp
    have J3: "\<forall>(k, arr) \<in> set (bySrc_add ?m e). \<forall>d \<in> set arr. source_of d = k"
    proof -
      have "source_of d = k" if "(k, arr) \<in> set (map ?upd ?m)" "d \<in> set arr" for k arr d
      proof -
        from that(1) obtain arr' where in_m: "(k, arr') \<in> set ?m"
          and arr: "arr = (if same_value_zero k ?src then arr' @ [e] else arr')"
          by (auto split: if_splits)
        show ?thesis
        proof (cases "d \<in> set arr'")
          case True
          with in_m I3 show ?thesis by blast
        next
          case False
          with arr that(2) have "same_value_zero k ?src" "d = e" by (auto split: if_splits)
          then show ?thesis by (auto dest: svz_eq)
        qed
      qed
      then show ?thesis unfolding old by blast
    qed
    have "mset (concat (map snd (map ?upd m'))) = mset (concat (map snd m'))
        + mset (concat (map (\<lambda>x. [e]) (filter (\<lambda>(k, arr). same_value_zero k ?src) m')))" for m'
      by (induction m') auto
    from this [of ?m] one I4 have J4: "mset (concat (map snd (bySrc_add ?m e))) = mset (es @ [e])"
      unfolding old by simp
    from J1 J2 J3 J4 show ?thesis unfolding step by blast
  qed
qed

subsection \<open>The pruned edges\<close>

lemma mset_concat_slices:
  assumes "\<And>arr. mset (f arr) \<subseteq># mset arr"
  shows "mset (concat (map (\<lambda>(k, arr). f arr) m)) \<subseteq># mset (concat (map snd m))"
proof (induction m)
  case Nil
  show ?case by simp
next
  case (Cons p m)
  obtain k arr where p: "p = (k, arr)" by (cases p)
  from Cons assms [of arr] show ?case
    by (simp add: p subset_mset.add_mono)
qed

lemma sort_slice_subseteq:
  "mset (array_slice0 (array_sort cmp arr) e) \<subseteq># mset arr"
  using mset_array_slice0 [of "array_sort cmp arr" e] by (simp add: mset_array_sort)

lemma el_edges_toCytoscapeElements:
  "el_edges (toCytoscapeElements cv g minW maxE) =
     concat (map (\<lambda>(src, arr). array_slice0 (array_sort (weight_compare cv) arr) maxE)
       (fold (\<lambda>e m. bySrc_add m e) (filtered_edges cv g minW) []))"
  by (simp add: toCytoscapeElements_def Let_def)

lemma el_nodes_toCytoscapeElements:
  "el_nodes (toCytoscapeElements cv g minW maxE) = map node_element (nodes g)"
  by (simp add: toCytoscapeElements_def Let_def)

lemma pruned_subseteq:
  "mset (el_edges (toCytoscapeElements cv g minW maxE)) \<subseteq># mset (filtered_edges cv g minW)"
proof -
  let ?m = "fold (\<lambda>e m. bySrc_add m e) (filtered_edges cv g minW) []"
  have "mset (concat (map (\<lambda>(k, arr). array_slice0 (array_sort (weight_compare cv) arr) maxE) ?m))
      \<subseteq># mset (concat (map snd ?m))"
    by (rule mset_concat_slices) (rule sort_slice_subseteq)
  also have "\<dots> = mset (filtered_edges cv g minW)"
    using bySrc_fold_inv [of "filtered_edges cv g minW"] by blast
  finally show ?thesis by (simp add: el_edges_toCytoscapeElements)
qed

lemma filtered_edges_origin:
  assumes "d \<in> set (filtered_edges cv g minW)"
  shows "\<exists>idx e. idx < length (filter (weight_ok cv minW) (edges g)) \<and> e \<in> set (edges g)
           \<and> weight_ok cv minW e \<and> d = edge_element idx e"
proof -
  from assms obtain idx e where
    ie: "(idx, e) \<in> set (enumerate 0 (filter (weight_ok cv minW) (edges g)))"
    and d: "d = edge_element idx e"
    by (auto simp: filtered_edges_def)
  from ie have idx: "idx < length (filter (weight_ok cv minW) (edges g))"
    and e: "e = filter (weight_ok cv minW) (edges g) ! idx"
    by (auto simp: in_set_enumerate_eq)
  then have "e \<in> set (filter (weight_ok cv minW) (edges g))" by (simp only: nth_mem)
  with d idx show ?thesis by auto
qed

lemma pruned_origin:
  assumes "d \<in> set (el_edges (toCytoscapeElements cv g minW maxE))"
  shows "\<exists>idx e. idx < length (filter (weight_ok cv minW) (edges g)) \<and> e \<in> set (edges g)
           \<and> weight_ok cv minW e \<and> d = edge_element idx e"
proof -
  from assms pruned_subseteq [of cv g minW maxE] have "d \<in> set (filtered_edges cv g minW)"
    by (metis mset_subset_eqD set_mset_mset)
  then show ?thesis by (rule filtered_edges_origin)
qed

lemma filter_group_slice:
  assumes "\<forall>d \<in> set arr. source_of d = k" and "set (f arr) \<subseteq> set arr"
  shows "filter (\<lambda>d. same_value_zero (source_of d) s) (f arr)
           = (if same_value_zero k s then f arr else [])"
  using assms by (auto simp: filter_empty_conv filter_id_conv)

lemma pruned_group:
  assumes I2: "length (filter (\<lambda>(k, arr). same_value_zero k s) m) \<le> 1"
    and I3: "\<forall>(k, arr) \<in> set m. \<forall>d \<in> set arr. source_of d = k"
    and sub: "\<And>arr. set (f arr) \<subseteq> set arr"
  shows "filter (\<lambda>d. same_value_zero (source_of d) s) (concat (map (\<lambda>(k, arr). f arr) m))
           = f (concat (map snd (filter (\<lambda>(k, arr). same_value_zero k s) m)))"
proof -
  have f0: "f [] = []" using sub [of "[]"] by simp
  have "filter (\<lambda>d. same_value_zero (source_of d) s) (concat (map (\<lambda>(k, arr). f arr) m'))
      = concat (map (\<lambda>(k, arr). f arr) (filter (\<lambda>(k, arr). same_value_zero k s) m'))"
    if "\<forall>(k, arr) \<in> set m'. \<forall>d \<in> set arr. source_of d = k" for m'
    using that
  proof (induction m')
    case Nil
    show ?case by simp
  next
    case (Cons p m')
    obtain k arr where p: "p = (k, arr)" by (cases p)
    from Cons.prems p have "\<forall>d \<in> set arr. source_of d = k" by simp
    then have "filter (\<lambda>d. same_value_zero (source_of d) s) (f arr)
           = (if same_value_zero k s then f arr else [])"
      using sub [of arr] by (rule filter_group_slice)
    moreover from Cons have "filter (\<lambda>d. same_value_zero (source_of d) s) (concat (map (\<lambda>(k, arr). f arr) m'))
      = concat (map (\<lambda>(k, arr). f arr) (filter (\<lambda>(k, arr). same_value_zero k s) m'))"
      by simp
    ultimately show ?case by (simp add: p)
  qed
  from this [OF I3] have "filter (\<lambda>d. same_value_zero (source_of d) s) (concat (map (\<lambda>(k, arr). f arr) m))
      = concat (map (\<lambda>(k, arr). f arr) (filter (\<lambda>(k, arr). same_value_zero k s) m))" .
  also have "\<dots> = f (concat (map snd (filter (\<lambda>(k, arr). same_value_zero k s) m)))"
  proof (cases "filter (\<lambda>(k, arr). same_value_zero k s) m")
    case Nil
    then show ?thesis by (simp add: f0)
  next
    case (Cons p ps)
    with I2 have "ps = []" by simp
    with Cons show ?thesis by (cases p) simp
  qed
  finally show ?thesis .
qed

lemma set_sort_slice: "set (array_slice0 (array_sort cmp arr) e) \<subseteq> set arr"
  using sort_slice_subseteq [of cmp arr e] by (metis set_mset_mono set_mset_mset)

lemma pruned_by_source:
  "filter (\<lambda>d. same_value_zero (source_of d) s) (el_edges (toCytoscapeElements cv g minW maxE))
     = array_slice0 (array_sort (weight_compare cv)
         (filter (\<lambda>d. same_value_zero (source_of d) s) (filtered_edges cv g minW))) maxE"
proof -
  let ?es = "filtered_edges cv g minW"
  let ?m = "fold (\<lambda>e m. bySrc_add m e) ?es []"
  note inv = bySrc_fold_inv [of ?es]
  from inv have I1: "concat (map snd (filter (\<lambda>(k, arr). same_value_zero k s) ?m))
          = filter (\<lambda>d. same_value_zero (source_of d) s) ?es" by blast
  from inv have I2: "length (filter (\<lambda>(k, arr). same_value_zero k s) ?m) \<le> 1" by blast
  from inv have I3: "\<forall>(k, arr) \<in> set ?m. \<forall>d \<in> set arr. source_of d = k" by blast
  show ?thesis
    unfolding el_edges_toCytoscapeElements
    using pruned_group [of s ?m "\<lambda>arr. array_slice0 (array_sort (weight_compare cv) arr) maxE", OF I2 I3 set_sort_slice]
    by (simp only: I1)
qed

lemma get_prop_edge_element:
  assumes "distinct (map fst e)"
  shows "get_prop (data (edge_element idx e)) k =
     (case map_of e k of Some v \<Rightarrow> v
      | None \<Rightarrow> if k = ''id'' then JStr (''e'' @ to_decimal idx)
                else if k = ''source'' then get_prop e ''src''
                else if k = ''target'' then get_prop e ''dst'' else JUndef)"
  using assms by (simp add: edge_element_def get_prop_spread) (simp add: get_prop_def split: option.splits)

lemma weight_of_edge_element:
  assumes "distinct (map fst e)"
  shows "weight_of cv (data (edge_element idx e)) = weight_of cv e"
  using assms by (simp add: weight_of_def get_prop_edge_element) (simp add: get_prop_def split: option.splits)

lemma get_prop_node_element:
  assumes "distinct (map fst n)"
  shows "get_prop (data (node_element n)) k = get_prop n k"
  using assms by (simp add: node_element_def get_prop_spread) (simp add: get_prop_def split: option.splits)

lemma wf_graph_edge: "wf_graph g \<Longrightarrow> e \<in> set (edges g) \<Longrightarrow> distinct (map fst e)"
  by (simp add: wf_graph_def list_all_iff)

lemma wf_graph_node: "wf_graph g \<Longrightarrow> n \<in> set (nodes g) \<Longrightarrow> distinct (map fst n)"
  by (simp add: wf_graph_def list_all_iff)

lemma weight_ok_not_NaN: "weight_ok cv minW e \<Longrightarrow> weight_of cv e \<noteq> NaN"
  by (simp add: weight_ok_def num_ge_def)

lemma mset_subseteq_image_ex:
  "A \<subseteq># image_mset f B \<Longrightarrow> \<exists>C. C \<subseteq># B \<and> A = image_mset f C"
proof (induction B arbitrary: A)
  case empty
  then show ?case by simp
next
  case (add x B)
  show ?case
  proof (cases "f x \<in># A")
    case True
    from add.prems have "A - {#f x#} \<subseteq># image_mset f B"
      by (simp add: subset_eq_diff_conv)
    from add.IH [OF this] obtain C where C: "C \<subseteq># B" "A - {#f x#} = image_mset f C" by blast
    from True C(2) have "A = add_mset (f x) (image_mset f C)" by (metis insert_DiffM)
    then have "A = image_mset f (add_mset x C)" by simp
    moreover from C(1) have "add_mset x C \<subseteq># add_mset x B" by simp
    ultimately show ?thesis by blast
  next
    case False
    from add.prems have "A \<subseteq># add_mset (f x) (image_mset f B)" by simp
    with False have "A \<subseteq># image_mset f B"
      by (metis Diff_eq_empty_iff_mset minus_add_mset_if_not_in_lhs)
    from add.IH [OF this] obtain C where C: "C \<subseteq># B" "A = image_mset f C" by blast
    from C(1) have "C \<subseteq># add_mset x B" using subset_mset.trans by fastforce
    with C(2) show ?thesis by blast
  qed
qed

lemma get_prop_edge_element_id:
  assumes "map_of e ''id'' = None"
  shows "get_prop (data (edge_element idx e)) ''id'' = JStr (''e'' @ to_decimal idx)"
  using assms by (simp add: edge_element_def get_prop_spread_base) (simp add: get_prop_def)

subsection \<open>The worked examples, evaluated\<close>

lemma wf_graphA: "wf_graph graphA"
  by (simp add: wf_graph_def graphA_def edgeA_def)

lemma wf_graphOwnId: "wf_graph graphOwnId"
  by (simp add: wf_graph_def graphOwnId_def)

lemma el_edges_graphA:
  "el_edges (toCytoscapeElements cv_none graphA (Fin (1 / 20)) (Fin 2))
     = [edge_element 0 (edgeA ''B'' (9 / 10)), edge_element 1 (edgeA ''C'' (9 / 10))]"
  by code_simp

lemma el_edges_graphOwnId:
  "el_edges (toCytoscapeElements cv_none graphOwnId (Fin 0) (Fin 5))
     = [edge_element 0 (edges graphOwnId ! 0), edge_element 1 (edges graphOwnId ! 1)]"
  by code_simp

lemma el_edges_graphA_source: "filter (\<lambda>d. same_value_zero (source_of d) (JStr ''A''))
        (el_edges (toCytoscapeElements cv_none graphA (Fin (1 / 20)) (Fin 2)))
   = [edge_element 0 (edgeA ''B'' (9 / 10)), edge_element 1 (edgeA ''C'' (9 / 10))]"
  by code_simp

subsection \<open>When the reduction throws\<close>

lemma weight_ok_result_eq:
  "weight_ok_result cv minW e =
     (if weight_raises e then Inl TypeError else Inr (weight_ok cv minW e))"
  by (simp add: weight_ok_result_def Number_result_def weight_raises_def weight_ok_def weight_of_def)

lemma filter_result_eq:
  assumes "\<And>x. f x = (if R x then Inl TypeError else Inr (P x))"
  shows "filter_result f xs = (if list_ex R xs then Inl TypeError else Inr (filter P xs))"
  by (induction xs) (simp_all add: assms)

lemma toCytoscapeElements_result_eq:
  "toCytoscapeElements_result cv g minW maxE =
     (if list_ex weight_raises (edges g) then Inl TypeError
      else Inr (toCytoscapeElements cv g minW maxE))"
  by (simp add: toCytoscapeElements_result_def toCytoscapeElements_def filtered_edges_def
      filter_result_eq [of _ weight_raises "weight_ok cv minW", OF weight_ok_result_eq] Let_def)

lemma primitive_weight_not_raises:
  "is_primitive (get_prop e ''weight'') \<Longrightarrow> \<not> weight_raises e"
  by (cases "get_prop e ''weight''") (auto simp: weight_raises_def)

lemma toCytoscapeElements_single:
  "toCytoscapeElements cv \<lparr>nodes = ns, edges = [e]\<rparr> minW maxE =
     \<lparr>el_nodes = map node_element ns,
      el_edges = (if weight_ok cv minW e then array_slice0 [edge_element 0 e] maxE else [])\<rparr>"
  by (simp add: toCytoscapeElements_def filtered_edges_def bySrc_add_def map_has_def
      array_sort_def array_slice0_def Let_def split: jsnum.splits)

subsection \<open>The index of an output edge\<close>

lemma filtered_edges_index:
  assumes "d \<in> set (filtered_edges cv g minW)"
  shows "\<exists>idx < length (filter (weight_ok cv minW) (edges g)).
           d = edge_element idx (filter (weight_ok cv minW) (edges g) ! idx)"
proof -
  from assms obtain idx e where
    ie: "(idx, e) \<in> set (enumerate 0 (filter (weight_ok cv minW) (edges g)))"
    and d: "d = edge_element idx e"
    by (auto simp: filtered_edges_def)
  from ie have "idx < length (filter (weight_ok cv minW) (edges g))"
    and "e = filter (weight_ok cv minW) (edges g) ! idx"
    by (auto simp: in_set_enumerate_eq)
  with d show ?thesis by blast
qed

lemma pruned_index:
  assumes "d \<in> set (el_edges (toCytoscapeElements cv g minW maxE))"
  shows "\<exists>idx < length (filter (weight_ok cv minW) (edges g)).
           d = edge_element idx (filter (weight_ok cv minW) (edges g) ! idx)"
proof -
  from assms pruned_subseteq [of cv g minW maxE] have "d \<in> set (filtered_edges cv g minW)"
    by (metis mset_subset_eqD set_mset_mset)
  then show ?thesis by (rule filtered_edges_index)
qed

section \<open>The reduced graph\<close>

text \<open>
  C2.  Every edge of the result wraps an input edge whose weight (a missing weight read as
  0) is at least \<open>minEdgeWeight\<close>, and the weight carried by the output edge is at least
  \<open>minEdgeWeight\<close>; an edge whose weight is strictly below the threshold does not pass the
  filter.  The filter comes first: the result is the result for the graph that holds only
  the edges that pass.
\<close>

theorem threshold_filter:
  "(\<forall>d \<in> set (el_edges (toCytoscapeElements cv g minW maxE)).
      \<exists>idx e. e \<in> set (edges g) \<and> d = edge_element idx e \<and> num_ge (weight_of cv e) minW)
   \<and> (wf_graph g \<longrightarrow>
        (\<forall>d \<in> set (el_edges (toCytoscapeElements cv g minW maxE)).
           num_ge (weight_of cv (data d)) minW))
   \<and> (\<forall>e. num_lt (weight_of cv e) minW \<longrightarrow> \<not> weight_ok cv minW e)
   \<and> toCytoscapeElements cv g minW maxE =
       toCytoscapeElements cv (g\<lparr>edges := filter (weight_ok cv minW) (edges g)\<rparr>) minW maxE"
proof (intro conjI impI ballI allI)
  fix d assume "d \<in> set (el_edges (toCytoscapeElements cv g minW maxE))"
  from pruned_origin [OF this]
  show "\<exists>idx e. e \<in> set (edges g) \<and> d = edge_element idx e \<and> num_ge (weight_of cv e) minW"
    by (auto simp: weight_ok_def)
next
  fix d assume wf: "wf_graph g" and "d \<in> set (el_edges (toCytoscapeElements cv g minW maxE))"
  from pruned_origin [OF this(2)] obtain idx e where
    "e \<in> set (edges g)" "weight_ok cv minW e" "d = edge_element idx e" by blast
  with wf show "num_ge (weight_of cv (data d)) minW"
    by (simp add: weight_of_edge_element wf_graph_edge weight_ok_def)
next
  fix e assume "num_lt (weight_of cv e) minW"
  then show "\<not> weight_ok cv minW e" by (simp add: weight_ok_def num_ge_def)
next
  show "toCytoscapeElements cv g minW maxE =
       toCytoscapeElements cv (g\<lparr>edges := filter (weight_ok cv minW) (edges g)\<rparr>) minW maxE"
    by (simp add: toCytoscapeElements_def filtered_edges_def)
qed

theorem threshold_filter_witness:
  "wf_graph graphA
   \<and> el_edges (toCytoscapeElements cv_none graphA (Fin (1 / 20)) (Fin 2))
       = [edge_element 0 (edgeA ''B'' (9 / 10)), edge_element 1 (edgeA ''C'' (9 / 10))]
   \<and> num_ge (weight_of cv_none (data (edge_element 0 (edgeA ''B'' (9 / 10))))) (Fin (1 / 20))
   \<and> num_ge (weight_of cv_none (data (edge_element 1 (edgeA ''C'' (9 / 10))))) (Fin (1 / 20))
   \<and> num_lt (weight_of cv_none (edgeA ''F'' (1 / 100))) (Fin (1 / 20))
   \<and> \<not> weight_ok cv_none (Fin (1 / 20)) (edgeA ''F'' (1 / 100))"
proof -
  have lt: "num_lt (weight_of cv_none (edgeA ''F'' (1 / 100))) (Fin (1 / 20))"
    by (simp add: weight_of_def edgeA_def get_prop_def)
  show ?thesis
    using threshold_filter [of cv_none graphA "Fin (1 / 20)" "Fin 2"] wf_graphA el_edges_graphA lt
    by simp
qed

text \<open>
  C3.  Let \<open>maxEdgesPerNode\<close> be a natural number \<open>k\<close>, and \<open>s\<close> a source.  The edges of the
  result with source \<open>s\<close>, in their order in the result, are the first \<open>k\<close> elements of the
  sorted group of \<open>s\<close> (the filtered edges with source \<open>s\<close>, in input order, sorted by
  \<open>sort\<close>); so there are at most \<open>k\<close> of them.  The sorted group is a permutation of the
  group, its weights descend, and edges of equal weight keep their input order.
\<close>

theorem out_degree_cap:
  assumes "wf_graph g" and "maxE = Fin (of_nat k)"
  shows
    "filter (\<lambda>d. same_value_zero (source_of d) s) (el_edges (toCytoscapeElements cv g minW maxE))
       = take k (array_sort (weight_compare cv)
           (filter (\<lambda>d. same_value_zero (source_of d) s) (filtered_edges cv g minW)))
     \<and> length (filter (\<lambda>d. same_value_zero (source_of d) s)
                 (el_edges (toCytoscapeElements cv g minW maxE))) \<le> k
     \<and> mset (array_sort (weight_compare cv)
           (filter (\<lambda>d. same_value_zero (source_of d) s) (filtered_edges cv g minW)))
         = mset (filter (\<lambda>d. same_value_zero (source_of d) s) (filtered_edges cv g minW))
     \<and> sorted_wrt (\<lambda>a b. num_ge (weight_of cv (data a)) (weight_of cv (data b)))
         (array_sort (weight_compare cv)
           (filter (\<lambda>d. same_value_zero (source_of d) s) (filtered_edges cv g minW)))
     \<and> (\<forall>v. filter (\<lambda>d. weight_of cv (data d) = v)
               (array_sort (weight_compare cv)
                 (filter (\<lambda>d. same_value_zero (source_of d) s) (filtered_edges cv g minW)))
             = filter (\<lambda>d. weight_of cv (data d) = v)
                 (filter (\<lambda>d. same_value_zero (source_of d) s) (filtered_edges cv g minW)))"
proof -
  let ?grp = "filter (\<lambda>d. same_value_zero (source_of d) s) (filtered_edges cv g minW)"
  let ?surv = "filter (\<lambda>d. same_value_zero (source_of d) s)
                 (el_edges (toCytoscapeElements cv g minW maxE))"
  have surv: "?surv = take k (array_sort (weight_compare cv) ?grp)"
    by (simp add: pruned_by_source assms(2) array_slice0_nat)
  then have len: "length ?surv \<le> k" by simp
  have "weight_of cv (data d) \<noteq> NaN" if "d \<in> set ?grp" for d
  proof -
    from that have "d \<in> set (filtered_edges cv g minW)" by simp
    from filtered_edges_origin [OF this] obtain idx e where
      "e \<in> set (edges g)" "weight_ok cv minW e" "d = edge_element idx e" by blast
    with assms(1) show ?thesis
      by (simp add: weight_of_edge_element wf_graph_edge weight_ok_not_NaN)
  qed
  then have srt: "sorted_wrt (\<lambda>a b. num_ge (weight_of cv (data a)) (weight_of cv (data b)))
         (array_sort (weight_compare cv) ?grp)"
    by (intro sorted_array_sort) blast
  from surv len srt show ?thesis
    by (simp only: mset_array_sort array_sort_stable) simp
qed

theorem out_degree_cap_witness:
  "wf_graph graphA \<and> Fin 2 = Fin (of_nat 2)
   \<and> filter (\<lambda>d. same_value_zero (source_of d) (JStr ''A''))
        (el_edges (toCytoscapeElements cv_none graphA (Fin (1 / 20)) (Fin 2)))
       = [edge_element 0 (edgeA ''B'' (9 / 10)), edge_element 1 (edgeA ''C'' (9 / 10))]
   \<and> take 2 (array_sort (weight_compare cv_none)
         (filter (\<lambda>d. same_value_zero (source_of d) (JStr ''A''))
            (filtered_edges cv_none graphA (Fin (1 / 20)))))
       = [edge_element 0 (edgeA ''B'' (9 / 10)), edge_element 1 (edgeA ''C'' (9 / 10))]"
  using out_degree_cap [of graphA "Fin 2" 2 "JStr ''A''" cv_none "Fin (1 / 20)"] wf_graphA el_edges_graphA_source
  by simp

text \<open>
  C4.  The nodes of the result are the input nodes, one for one and in order, each wrapped
  with its \<open>id\<close> written first; no node is dropped, whatever the two parameters are, and a
  result node reads like its input node at every property name.  The edges of the result
  are wrapped input edges, each input edge used at most once, so there are no more of
  them than input edges.
\<close>

theorem nodes_kept_edges_subset:
  "el_nodes (toCytoscapeElements cv g minW maxE) = map node_element (nodes g)
   \<and> length (el_nodes (toCytoscapeElements cv g minW maxE)) = length (nodes g)
   \<and> (wf_graph g \<longrightarrow>
        (\<forall>i < length (nodes g). \<forall>k.
           get_prop (data (el_nodes (toCytoscapeElements cv g minW maxE) ! i)) k
             = get_prop (nodes g ! i) k))
   \<and> (\<exists>ps. mset (map snd ps) \<subseteq># mset (edges g)
         \<and> mset (el_edges (toCytoscapeElements cv g minW maxE))
             = mset (map (\<lambda>(idx, e). edge_element idx e) ps))
   \<and> length (el_edges (toCytoscapeElements cv g minW maxE)) \<le> length (edges g)"
proof -
  let ?out = "toCytoscapeElements cv g minW maxE"
  let ?fl = "filter (weight_ok cv minW) (edges g)"
  have n1: "el_nodes ?out = map node_element (nodes g)"
    by (rule el_nodes_toCytoscapeElements)
  have n2: "get_prop (data (el_nodes ?out ! i)) k = get_prop (nodes g ! i) k"
    if "wf_graph g" "i < length (nodes g)" for i k
    using that by (simp add: n1 get_prop_node_element wf_graph_node)
  have "mset (el_edges ?out) \<subseteq># image_mset (\<lambda>(idx, e). edge_element idx e) (mset (enumerate 0 ?fl))"
    using pruned_subseteq [of cv g minW maxE] by (simp add: filtered_edges_def)
  from mset_subseteq_image_ex [OF this] obtain C where
    C: "C \<subseteq># mset (enumerate 0 ?fl)"
      "mset (el_edges ?out) = image_mset (\<lambda>(idx, e). edge_element idx e) C" by blast
  obtain ps where ps: "mset ps = C" using ex_mset by blast
  have "image_mset snd C \<subseteq># image_mset snd (mset (enumerate 0 ?fl))"
    using C(1) by (rule image_mset_subseteq_mono)
  also have "image_mset snd (mset (enumerate 0 ?fl)) = mset ?fl"
    by (metis map_snd_enumerate mset_map)
  also have "mset ?fl \<subseteq># mset (edges g)" by simp
  finally have sub: "mset (map snd ps) \<subseteq># mset (edges g)" by (simp add: ps [symmetric])
  have eq: "mset (el_edges ?out) = mset (map (\<lambda>(idx, e). edge_element idx e) ps)"
    using C(2) by (simp add: ps [symmetric])
  have "length (el_edges ?out) = length (map snd ps)"
    using eq by (metis length_map size_mset)
  also have "\<dots> \<le> length (edges g)"
    using sub by (metis size_mset size_mset_mono)
  finally have len: "length (el_edges ?out) \<le> length (edges g)" .
  from n1 n2 sub eq len show ?thesis by auto
qed

theorem nodes_kept_edges_subset_witness:
  "wf_graph graphA
   \<and> length (el_nodes (toCytoscapeElements cv_none graphA (Fin (1 / 20)) (Fin 2))) = 2
   \<and> get_prop (data (el_nodes (toCytoscapeElements cv_none graphA (Fin (1 / 20)) (Fin 2)) ! 1)) ''id''
       = JStr ''Z''
   \<and> length (el_edges (toCytoscapeElements cv_none graphA (Fin (1 / 20)) (Fin 2))) \<le> 5"
proof -
  note t = nodes_kept_edges_subset [of cv_none graphA "Fin (1 / 20)" "Fin 2"]
  have n: "length (nodes graphA) = 2" "length (edges graphA) = 5"
    "get_prop (nodes graphA ! 1) ''id'' = JStr ''Z''"
    by (simp_all add: graphA_def get_prop_def)
  from t have "length (el_nodes (toCytoscapeElements cv_none graphA (Fin (1 / 20)) (Fin 2)))
      = length (nodes graphA)" by blast
  moreover have "(1::nat) < length (nodes graphA)" by (simp add: n)
  with t wf_graphA
  have "get_prop (data (el_nodes (toCytoscapeElements cv_none graphA (Fin (1 / 20)) (Fin 2)) ! 1)) ''id''
      = get_prop (nodes graphA ! 1) ''id''" by blast
  moreover from t
  have "length (el_edges (toCytoscapeElements cv_none graphA (Fin (1 / 20)) (Fin 2)))
      \<le> length (edges graphA)" by blast
  ultimately show ?thesis using wf_graphA n by simp
qed

text \<open>
  C6 (as amended).  The reduction returns exactly when no edge has a weight whose
  coercion throws, and then it returns the elements computed by \<open>toCytoscapeElements\<close>,
  from the edges that pass \<open>weight_ok\<close>; otherwise it throws a \<open>TypeError\<close>.  It returns
  whenever every weight is missing or a primitive value.  An edge without a \<open>weight\<close>
  property reads \<open>undefined\<close> there; when the weight is undefined or null the callback does
  not throw, the weight counts as 0, and the edge passes exactly when
  \<open>0 >= minEdgeWeight\<close> (alone in a graph with a positive cap, it is then the one edge of
  the result).  A weight that is present is not replaced by 0: \<open>true\<close> counts as 1 and
  \<open>false\<close> as 0, a string as the number it is converted to, and an edge whose weight
  converts to NaN passes for no threshold.
\<close>

theorem reduction_weight_coercion:
  "((\<forall>e \<in> set (edges g). is_primitive (get_prop e ''weight'')) \<longrightarrow>
       toCytoscapeElements_result cv g minW maxE = Inr (toCytoscapeElements cv g minW maxE))
   \<and> (\<not> list_ex weight_raises (edges g) \<longrightarrow>
       toCytoscapeElements_result cv g minW maxE = Inr (toCytoscapeElements cv g minW maxE))
   \<and> (list_ex weight_raises (edges g) \<longrightarrow>
       toCytoscapeElements_result cv g minW maxE = Inl TypeError)
   \<and> (filter_result (weight_ok_result cv minW) (edges g) = Inr passed \<longrightarrow>
       passed = filter (weight_ok cv minW) (edges g))
   \<and> (map_of e ''weight'' = None \<longrightarrow> get_prop e ''weight'' = JUndef)
   \<and> (get_prop e ''weight'' = JUndef \<or> get_prop e ''weight'' = JNull \<longrightarrow>
         weight_of cv e = Fin 0
       \<and> weight_ok_result cv minW e = Inr (num_ge (Fin 0) minW)
       \<and> (weight_ok cv minW e \<longleftrightarrow> num_ge (Fin 0) minW)
       \<and> toCytoscapeElements_result cv \<lparr>nodes = ns, edges = [e]\<rparr> minW (Fin (of_nat (Suc k)))
           = Inr \<lparr>el_nodes = map node_element ns,
                  el_edges = (if num_ge (Fin 0) minW then [edge_element 0 e] else [])\<rparr>)
   \<and> (get_prop e ''weight'' = JBool b \<longrightarrow>
         weight_ok_result cv minW e = Inr (num_ge (Fin (if b then 1 else 0)) minW))
   \<and> (get_prop e ''weight'' = JStr s \<longrightarrow>
         weight_ok_result cv minW e = Inr (num_ge (cv (JStr s)) minW))
   \<and> (\<not> weight_raises e \<and> weight_of cv e = NaN \<longrightarrow>
         weight_ok_result cv minW e = Inr False
       \<and> toCytoscapeElements_result cv \<lparr>nodes = ns, edges = [e]\<rparr> minW maxE
           = Inr \<lparr>el_nodes = map node_element ns, el_edges = []\<rparr>)
   \<and> (weight_raises e \<longrightarrow>
         weight_ok_result cv minW e = Inl TypeError
       \<and> toCytoscapeElements_result cv \<lparr>nodes = ns, edges = [e]\<rparr> minW maxE = Inl TypeError)"
proof (intro conjI impI)
  assume "\<forall>e \<in> set (edges g). is_primitive (get_prop e ''weight'')"
  then have "\<not> list_ex weight_raises (edges g)"
    by (auto simp: list_ex_iff dest: primitive_weight_not_raises)
  then show "toCytoscapeElements_result cv g minW maxE = Inr (toCytoscapeElements cv g minW maxE)"
    by (simp add: toCytoscapeElements_result_eq)
next
  assume "\<not> list_ex weight_raises (edges g)"
  then show "toCytoscapeElements_result cv g minW maxE = Inr (toCytoscapeElements cv g minW maxE)"
    by (simp add: toCytoscapeElements_result_eq)
next
  assume "list_ex weight_raises (edges g)"
  then show "toCytoscapeElements_result cv g minW maxE = Inl TypeError"
    by (simp add: toCytoscapeElements_result_eq)
next
  assume "filter_result (weight_ok_result cv minW) (edges g) = Inr passed"
  then show "passed = filter (weight_ok cv minW) (edges g)"
    by (simp add: filter_result_eq [of _ weight_raises "weight_ok cv minW", OF weight_ok_result_eq]
        split: if_splits)
next
  assume "map_of e ''weight'' = None"
  then show "get_prop e ''weight'' = JUndef" by (simp add: get_prop_def)
next
  assume m: "get_prop e ''weight'' = JUndef \<or> get_prop e ''weight'' = JNull"
  then have nr: "\<not> weight_raises e" by (auto simp: weight_raises_def)
  from m have ok: "weight_ok cv minW e \<longleftrightarrow> num_ge (Fin 0) minW"
    by (auto simp: weight_ok_def weight_of_def)
  from m show "weight_of cv e = Fin 0" by (auto simp: weight_of_def)
  from nr ok show "weight_ok_result cv minW e = Inr (num_ge (Fin 0) minW)"
    by (simp add: weight_ok_result_eq)
  from ok show "weight_ok cv minW e \<longleftrightarrow> num_ge (Fin 0) minW" .
  from nr ok show "toCytoscapeElements_result cv \<lparr>nodes = ns, edges = [e]\<rparr> minW (Fin (of_nat (Suc k)))
           = Inr \<lparr>el_nodes = map node_element ns,
                  el_edges = (if num_ge (Fin 0) minW then [edge_element 0 e] else [])\<rparr>"
    by (simp add: toCytoscapeElements_result_eq toCytoscapeElements_single array_slice0_nat
        del: of_nat_Suc)
next
  assume "get_prop e ''weight'' = JBool b"
  then show "weight_ok_result cv minW e = Inr (num_ge (Fin (if b then 1 else 0)) minW)"
    by (simp add: weight_ok_result_eq weight_raises_def weight_ok_def weight_of_def)
next
  assume "get_prop e ''weight'' = JStr s"
  then show "weight_ok_result cv minW e = Inr (num_ge (cv (JStr s)) minW)"
    by (simp add: weight_ok_result_eq weight_raises_def weight_ok_def weight_of_def)
next
  assume a: "\<not> weight_raises e \<and> weight_of cv e = NaN"
  then have no: "\<not> weight_ok cv minW e" by (simp add: weight_ok_def num_ge_def)
  with a show "weight_ok_result cv minW e = Inr False" by (simp add: weight_ok_result_eq)
  from a no show "toCytoscapeElements_result cv \<lparr>nodes = ns, edges = [e]\<rparr> minW maxE
           = Inr \<lparr>el_nodes = map node_element ns, el_edges = []\<rparr>"
    by (simp add: toCytoscapeElements_result_eq toCytoscapeElements_single)
next
  assume a: "weight_raises e"
  then show "weight_ok_result cv minW e = Inl TypeError" by (simp add: weight_ok_result_eq)
  from a show "toCytoscapeElements_result cv \<lparr>nodes = ns, edges = [e]\<rparr> minW maxE = Inl TypeError"
    by (simp add: toCytoscapeElements_result_eq)
qed

theorem reduction_weight_coercion_witness:
  "toCytoscapeElements_result cv_none graphA (Fin (1 / 20)) (Fin 2)
      = Inr (toCytoscapeElements cv_none graphA (Fin (1 / 20)) (Fin 2))
   \<and> map_of [(''src'', JStr ''A''), (''dst'', JStr ''B'')] ''weight'' = None
   \<and> weight_ok_result cv_none (Fin 0) [(''src'', JStr ''A''), (''dst'', JStr ''B'')] = Inr True
   \<and> weight_ok_result cv_none (Fin (1 / 20)) [(''src'', JStr ''A''), (''dst'', JStr ''B'')] = Inr False
   \<and> toCytoscapeElements_result cv_none
        \<lparr>nodes = [], edges = [[(''src'', JStr ''A''), (''dst'', JStr ''B'')]]\<rparr> (Fin 0) (Fin 5)
      = Inr \<lparr>el_nodes = [], el_edges = [edge_element 0 [(''src'', JStr ''A''), (''dst'', JStr ''B'')]]\<rparr>
   \<and> toCytoscapeElements_result cv_none
        \<lparr>nodes = [], edges = [[(''src'', JStr ''A''), (''dst'', JStr ''B'')]]\<rparr> (Fin (1 / 20)) (Fin 5)
      = Inr \<lparr>el_nodes = [], el_edges = []\<rparr>
   \<and> weight_ok_result cv_none (Fin (1 / 2)) [(''src'', JStr ''A''), (''weight'', JBool True)] = Inr True
   \<and> weight_ok_result cv_none (Fin 0) [(''src'', JStr ''A''), (''weight'', JStr ''abc'')] = Inr False
   \<and> toCytoscapeElements_result cv_none
        \<lparr>nodes = [], edges = [[(''src'', JStr ''A''), (''weight'', JStr ''abc'')]]\<rparr> (Fin 0) (Fin 5)
      = Inr \<lparr>el_nodes = [], el_edges = []\<rparr>
   \<and> toCytoscapeElements_result cv_none
        \<lparr>nodes = [], edges = [[(''src'', JStr ''A''),
                                (''weight'', JObj [(''toString'', JNum (Fin 1))])]]\<rparr> (Fin 0) (Fin 5)
      = Inl TypeError"
proof -
  let ?m = "[(''src'', JStr ''A''), (''dst'', JStr ''B'')]"
  let ?t = "[(''src'', JStr ''A''), (''weight'', JBool True)]"
  let ?s = "[(''src'', JStr ''A''), (''weight'', JStr ''abc'')]"
  let ?o = "[(''src'', JStr ''A''), (''weight'', JObj [(''toString'', JNum (Fin 1))])]"
  have prim: "\<forall>e \<in> set (edges graphA). is_primitive (get_prop e ''weight'')"
    by (simp add: graphA_def edgeA_def get_prop_def)
  have none: "map_of ?m ''weight'' = None" by simp
  have miss: "get_prop ?m ''weight'' = JUndef \<or> get_prop ?m ''weight'' = JNull"
    by (simp add: get_prop_def)
  have tr: "get_prop ?t ''weight'' = JBool True" by (simp add: get_prop_def)
  have st: "\<not> weight_raises ?s \<and> weight_of cv_none ?s = NaN"
    by (simp add: weight_raises_def weight_of_def get_prop_def cv_none_def)
  have ob: "weight_raises ?o" by (simp add: weight_raises_def get_prop_def)
  have five: "(of_nat (Suc 4) :: rat) = 5" by simp
  have ge: "num_ge (Fin 0) (Fin 0)" "\<not> num_ge (Fin 0) (Fin (1 / 20))" "num_ge (Fin 1) (Fin (1 / 2))"
    by (simp_all add: num_ge_def)
  note a = reduction_weight_coercion [of graphA cv_none "Fin (1 / 20)" "Fin 2" "[]" ?m "[]" 4 True "[]"]
  note b = reduction_weight_coercion [of graphA cv_none "Fin 0" "Fin 2" "[]" ?m "[]" 4 True "[]"]
  note c = reduction_weight_coercion [of graphA cv_none "Fin (1 / 2)" "Fin 5" "[]" ?t "[]" 4 True "[]"]
  note d = reduction_weight_coercion [of graphA cv_none "Fin 0" "Fin 5" "[]" ?s "[]" 4 True "[]"]
  note e = reduction_weight_coercion [of graphA cv_none "Fin 0" "Fin 5" "[]" ?o "[]" 4 True "[]"]
  note r1 = a [THEN conjunct1, THEN mp, OF prim]
  note a6 = a [THEN conjunct2, THEN conjunct2, THEN conjunct2, THEN conjunct2, THEN conjunct2,
      THEN conjunct1, THEN mp, OF miss]
  note b6 = b [THEN conjunct2, THEN conjunct2, THEN conjunct2, THEN conjunct2, THEN conjunct2,
      THEN conjunct1, THEN mp, OF miss]
  note r4 = c [THEN conjunct2, THEN conjunct2, THEN conjunct2, THEN conjunct2, THEN conjunct2,
      THEN conjunct2, THEN conjunct1, THEN mp, OF tr]
  note d9 = d [THEN conjunct2, THEN conjunct2, THEN conjunct2, THEN conjunct2, THEN conjunct2,
      THEN conjunct2, THEN conjunct2, THEN conjunct2, THEN conjunct1, THEN mp, OF st]
  note e10 = e [THEN conjunct2, THEN conjunct2, THEN conjunct2, THEN conjunct2, THEN conjunct2,
      THEN conjunct2, THEN conjunct2, THEN conjunct2, THEN conjunct2, THEN mp, OF ob]
  from r1 none a6 [unfolded five] b6 [unfolded five] r4 d9 e10 ge show ?thesis by simp
qed

text \<open>
  C6 as it is written fails for a weight that is present and not a number.  The weight
  \<open>true\<close> is kept at threshold 0.5, where weight 0 would be dropped; the weight
  \<open>"abc"\<close> is dropped at threshold 0, where weight 0 would be kept; and the weight
  \<open>{"toString": 1}\<close> makes the reduction throw.
\<close>

theorem nonnumeric_weight_counterexample:
  "toCytoscapeElements_result cv_none
      \<lparr>nodes = [], edges = [[(''src'', JStr ''A''), (''dst'', JStr ''B''), (''weight'', JBool True)]]\<rparr>
      (Fin (1 / 2)) (Fin 5)
     = Inr \<lparr>el_nodes = [],
            el_edges = [edge_element 0 [(''src'', JStr ''A''), (''dst'', JStr ''B''), (''weight'', JBool True)]]\<rparr>
   \<and> \<not> num_ge (Fin 0) (Fin (1 / 2))
   \<and> toCytoscapeElements_result cv_none
      \<lparr>nodes = [], edges = [[(''src'', JStr ''A''), (''dst'', JStr ''B''), (''weight'', JStr ''abc'')]]\<rparr>
      (Fin 0) (Fin 5) = Inr \<lparr>el_nodes = [], el_edges = []\<rparr>
   \<and> num_ge (Fin 0) (Fin 0)
   \<and> toCytoscapeElements_result cv_none
      \<lparr>nodes = [], edges = [[(''src'', JStr ''A''), (''dst'', JStr ''B''),
                              (''weight'', JObj [(''toString'', JNum (Fin 1))])]]\<rparr>
      (Fin 0) (Fin 5) = Inl TypeError"
  by code_simp

text \<open>
  C7 (as amended).  When no input edge has a property \<open>id\<close> of its own, every edge of the
  result wraps the edge at some index \<open>idx\<close> of the filtered edge list and carries the
  identifier \<open>e\<close> followed by that same \<open>idx\<close>, and the identifiers of the result are
  pairwise distinct.
\<close>

theorem generated_ids_unique:
  assumes "\<forall>e \<in> set (edges g). map_of e ''id'' = None"
  shows "distinct (map (\<lambda>d. get_prop (data d) ''id'') (el_edges (toCytoscapeElements cv g minW maxE)))
    \<and> (\<forall>d \<in> set (el_edges (toCytoscapeElements cv g minW maxE)).
          \<exists>idx < length (filter (weight_ok cv minW) (edges g)).
            d = edge_element idx (filter (weight_ok cv minW) (edges g) ! idx)
            \<and> get_prop (data d) ''id'' = JStr (''e'' @ to_decimal idx))"
proof -
  let ?out = "toCytoscapeElements cv g minW maxE"
  let ?fl = "filter (weight_ok cv minW) (edges g)"
  let ?idf = "\<lambda>d. get_prop (data d) ''id''"
  have "?idf (edge_element idx e) = JStr (''e'' @ to_decimal idx)"
    if "(idx, e) \<in> set (enumerate 0 ?fl)" for idx e
  proof -
    from that have "e \<in> set ?fl" by (metis in_set_enumerate_eq nth_mem snd_conv diff_zero add_0_right fst_conv)
    with assms show ?thesis by (simp add: get_prop_edge_element_id)
  qed
  then have "map ?idf (filtered_edges cv g minW)
      = map (\<lambda>p. JStr (''e'' @ to_decimal (fst p))) (enumerate 0 ?fl)"
    by (auto simp: filtered_edges_def)
  also have "\<dots> = map (\<lambda>idx. JStr (''e'' @ to_decimal idx)) (map fst (enumerate 0 ?fl))"
    by (simp only: map_map comp_def)
  also have "\<dots> = map (\<lambda>idx. JStr (''e'' @ to_decimal idx)) [0 ..< length ?fl]"
    by (simp only: map_fst_enumerate add_0)
  finally have ids: "map ?idf (filtered_edges cv g minW)
      = map (\<lambda>idx. JStr (''e'' @ to_decimal idx)) [0 ..< length ?fl]" .
  have "inj (\<lambda>idx. JStr (''e'' @ to_decimal idx))"
    by (auto simp: inj_on_def dest: to_decimal_inj)
  then have "distinct (map ?idf (filtered_edges cv g minW))"
    unfolding ids by (simp add: distinct_map inj_on_subset [OF _ subset_UNIV])
  moreover have "mset (map ?idf (el_edges ?out)) \<subseteq># mset (map ?idf (filtered_edges cv g minW))"
    using pruned_subseteq [of cv g minW maxE] by (simp add: image_mset_subseteq_mono)
  ultimately have d: "distinct (map ?idf (el_edges ?out))"
    by (rule distinct_mset_subseteq [rotated])
  have "\<exists>idx < length ?fl. d = edge_element idx (?fl ! idx)
          \<and> ?idf d = JStr (''e'' @ to_decimal idx)"
    if "d \<in> set (el_edges ?out)" for d
  proof -
    from pruned_index [OF that] obtain idx where
      idx: "idx < length ?fl" and dd: "d = edge_element idx (?fl ! idx)" by blast
    from idx have "?fl ! idx \<in> set ?fl" by (simp only: nth_mem)
    then have "?fl ! idx \<in> set (edges g)" by simp
    with assms have "map_of (?fl ! idx) ''id'' = None" by blast
    then have "?idf d = JStr (''e'' @ to_decimal idx)"
      unfolding dd by (rule get_prop_edge_element_id)
    with idx dd show ?thesis by blast
  qed
  with d show ?thesis by blast
qed

theorem generated_ids_unique_witness:
  "map_of (edgeA ''B'' (9 / 10)) ''id'' = None
   \<and> el_edges (toCytoscapeElements cv_none graphA (Fin (1 / 20)) (Fin 2)) ! 1
       = edge_element 1 (filter (weight_ok cv_none (Fin (1 / 20))) (edges graphA) ! 1)
   \<and> get_prop (data (el_edges (toCytoscapeElements cv_none graphA (Fin (1 / 20)) (Fin 2)) ! 0)) ''id''
       = JStr ''e0''
   \<and> get_prop (data (el_edges (toCytoscapeElements cv_none graphA (Fin (1 / 20)) (Fin 2)) ! 1)) ''id''
       = JStr ''e1''
   \<and> distinct (map (\<lambda>d. get_prop (data d) ''id'')
        (el_edges (toCytoscapeElements cv_none graphA (Fin (1 / 20)) (Fin 2))))"
proof -
  have no_id: "\<forall>e \<in> set (edges graphA). map_of e ''id'' = None"
    by (simp add: graphA_def edgeA_def)
  have ids: "to_decimal 0 = ''0''" "to_decimal (Suc 0) = ''1''"
    by (simp_all add: to_decimal.simps)
  have fl: "filter (weight_ok cv_none (Fin (1 / 20))) (edges graphA) ! Suc 0 = edgeA ''C'' (9 / 10)"
    by code_simp
  show ?thesis
    using generated_ids_unique [OF no_id, of cv_none "Fin (1 / 20)" "Fin 2"]
    by (simp add: el_edges_graphA get_prop_edge_element_id edgeA_def ids fl [unfolded edgeA_def])
qed

text \<open>
  C7 as it is written fails for records that carry their own \<open>id\<close>: the record is spread
  over the generated identifier.  Two edges with the same own \<open>id\<close> give two edges of the
  result with that same \<open>id\<close>.
\<close>

theorem own_id_counterexample:
  "length (el_edges (toCytoscapeElements cv_none graphOwnId (Fin 0) (Fin 5))) = 2
   \<and> get_prop (data (el_edges (toCytoscapeElements cv_none graphOwnId (Fin 0) (Fin 5)) ! 0)) ''id''
       = JStr ''x''
   \<and> get_prop (data (el_edges (toCytoscapeElements cv_none graphOwnId (Fin 0) (Fin 5)) ! 1)) ''id''
       = JStr ''x''"
  by code_simp

text \<open>
  C10.  Every edge of the result is \<open>edge_element idx e\<close> for an input edge \<open>e\<close>, and its
  data object holds every property of \<open>e\<close> with the value it has in \<open>e\<close>; so an \<open>id\<close>,
  \<open>source\<close> or \<open>target\<close> of the record's own replaces the generated one.  Where \<open>e\<close> has
  no such property, the generated value stands: the identifier, \<open>e.src\<close> and \<open>e.dst\<close>.
\<close>

theorem input_fields_kept:
  assumes "wf_graph g" and "d \<in> set (el_edges (toCytoscapeElements cv g minW maxE))"
  shows "\<exists>idx e. e \<in> set (edges g) \<and> d = edge_element idx e
    \<and> (\<forall>k v. map_of e k = Some v \<longrightarrow> get_prop (data d) k = v)
    \<and> (map_of e ''id'' = None \<longrightarrow> get_prop (data d) ''id'' = JStr (''e'' @ to_decimal idx))
    \<and> (map_of e ''source'' = None \<longrightarrow> get_prop (data d) ''source'' = get_prop e ''src'')
    \<and> (map_of e ''target'' = None \<longrightarrow> get_prop (data d) ''target'' = get_prop e ''dst'')"
proof -
  from pruned_origin [OF assms(2)] obtain idx e where
    e: "e \<in> set (edges g)" and d: "d = edge_element idx e" by blast
  from assms(1) e have "distinct (map fst e)" by (rule wf_graph_edge)
  then have "get_prop (data d) k =
     (case map_of e k of Some v \<Rightarrow> v
      | None \<Rightarrow> if k = ''id'' then JStr (''e'' @ to_decimal idx)
                else if k = ''source'' then get_prop e ''src''
                else if k = ''target'' then get_prop e ''dst'' else JUndef)" for k
    unfolding d by (rule get_prop_edge_element)
  with e d show ?thesis by (intro exI [of _ idx] exI [of _ e]) simp
qed

theorem input_fields_kept_witness:
  "wf_graph graphOwnId
   \<and> edge_element 0 (edges graphOwnId ! 0)
       \<in> set (el_edges (toCytoscapeElements cv_none graphOwnId (Fin 0) (Fin 5)))
   \<and> get_prop (data (edge_element 0 (edges graphOwnId ! 0))) ''id'' = JStr ''x''
   \<and> get_prop (data (edge_element 0 (edges graphOwnId ! 0))) ''weight'' = JNum (Fin 1)"
proof -
  have mem: "edge_element 0 (edges graphOwnId ! 0)
       \<in> set (el_edges (toCytoscapeElements cv_none graphOwnId (Fin 0) (Fin 5)))"
    by (simp add: el_edges_graphOwnId)
  from input_fields_kept [OF wf_graphOwnId mem] obtain idx e where
    e: "e \<in> set (edges graphOwnId)"
    and d: "edge_element 0 (edges graphOwnId ! 0) = edge_element idx e"
    and kept: "\<forall>k v. map_of e k = Some v \<longrightarrow>
                 get_prop (data (edge_element 0 (edges graphOwnId ! 0))) k = v"
    by blast
  from e have "map_of e ''id'' = Some (JStr ''x'')" "map_of e ''weight'' = Some (JNum (Fin 1))"
    by (auto simp: graphOwnId_def)
  with kept have "get_prop (data (edge_element 0 (edges graphOwnId ! 0))) ''id'' = JStr ''x''"
    "get_prop (data (edge_element 0 (edges graphOwnId ! 0))) ''weight'' = JNum (Fin 1)"
    by blast+
  with wf_graphOwnId mem show ?thesis by simp
qed

end
